theory Spec2Isabelle
  imports Complex_Main "HOL-Library.AList"
begin

section \<open>Data model (engine\_core.py)\<close>

text \<open>
  The two sides. WHITE moves from point 24 down to 1, BLACK from 1 up to 24.
\<close>

datatype Player = WHITE | BLACK

fun opponent :: "Player \<Rightarrow> Player" where
  "opponent p = (if p = WHITE then BLACK else WHITE)"

text \<open>
  The exceptions the code can raise: two by \<^verbatim>\<open>raise\<close>, one by list indexing
  and one by float division.
\<close>

datatype error = ValueError | RuntimeError | IndexError | ZeroDivisionError

record Move =
  start :: int
  end_idx :: int
  die :: int

record TurnRoute =
  moves :: "Move list"

record Point =
  checkers :: int
  owner :: "Player option"

text \<open>
  \<^verbatim>\<open>Point.add\<close> and \<^verbatim>\<open>Point.remove\<close> mutate the point or raise before any
  mutation; the model returns the new point or the error.
\<close>

definition Point_add :: "Point \<Rightarrow> Player \<Rightarrow> int \<Rightarrow> error + Point" where
  "Point_add pt ow n =
     (if owner pt = None then Inr (pt\<lparr>owner := Some ow, checkers := n\<rparr>)
      else if owner pt \<noteq> Some ow then Inl ValueError
      else Inr (pt\<lparr>checkers := checkers pt + n\<rparr>))"

definition Point_remove :: "Point \<Rightarrow> int \<Rightarrow> error + Point" where
  "Point_remove pt n =
     (if checkers pt < n then Inl ValueError
      else (let c = checkers pt - n
            in if c = 0 then Inr (pt\<lparr>checkers := c, owner := None\<rparr>)
               else Inr (pt\<lparr>checkers := c\<rparr>)))"

record Board =
  points :: "Point list"

text \<open>A fresh \<^verbatim>\<open>Point()\<close> and a fresh \<^verbatim>\<open>Board()\<close> of 28 pockets.\<close>

definition Point0 :: Point where
  "Point0 = \<lparr>checkers = 0, owner = None\<rparr>"

definition Board0 :: Board where
  "Board0 = \<lparr>points = replicate 28 Point0\<rparr>"

text \<open>
  Python list indexing: a negative index counts from the end, anything outside
  \<open>-len .. len-1\<close> raises IndexError.
\<close>

definition py_index :: "nat \<Rightarrow> int \<Rightarrow> nat option" where
  "py_index n i =
     (if 0 \<le> i \<and> i < int n then Some (nat i)
      else if i < 0 \<and> - int n \<le> i then Some (nat (int n + i))
      else None)"

definition point_at :: "Board \<Rightarrow> int \<Rightarrow> error + Point" where
  "point_at b i =
     (case py_index (length (points b)) i of
        None \<Rightarrow> Inl IndexError
      | Some k \<Rightarrow> Inr (points b ! k))"

text \<open>
  \<^verbatim>\<open>board.points[i].m(...)\<close> for a mutating point method \<open>m\<close>: the point at
  \<open>i\<close> is replaced by the mutated one; an IndexError or the method's own
  error leaves the board as it was.
\<close>

definition update_point :: "Board \<Rightarrow> int \<Rightarrow> (Point \<Rightarrow> error + Point) \<Rightarrow> error + Board" where
  "update_point b i m =
     (case py_index (length (points b)) i of
        None \<Rightarrow> Inl IndexError
      | Some k \<Rightarrow>
          (case m (points b ! k) of
             Inl e \<Rightarrow> Inl e
           | Inr pt \<Rightarrow> Inr (b\<lparr>points := (points b)[k := pt]\<rparr>)))"

text \<open>\<^verbatim>\<open>Board.clone\<close> is a deep copy: an equal, independent value.\<close>

definition clone :: "Board \<Rightarrow> Board" where
  "clone b = b"

definition bar_index :: "Player \<Rightarrow> int" where
  "bar_index p = (if p = WHITE then 0 else 26)"

definition off_index :: "Player \<Rightarrow> int" where
  "off_index p = (if p = WHITE then 25 else 27)"

definition dir :: "Player \<Rightarrow> int" where
  "dir p = (if p = WHITE then - 1 else 1)"

definition home_range :: "Player \<Rightarrow> int list" where
  "home_range p = (if p = WHITE then [1 .. 6] else [19 .. 24])"

text \<open>\<^verbatim>\<open>Board.standard_setup\<close>: eight \<^verbatim>\<open>put\<close> calls on a fresh board.\<close>

definition put :: "Board \<Rightarrow> int \<Rightarrow> int \<Rightarrow> Player \<Rightarrow> error + Board" where
  "put b idx n ow = update_point b idx (\<lambda>pt. Point_add pt ow n)"

fun put_all :: "Board \<Rightarrow> (int \<times> int \<times> Player) list \<Rightarrow> error + Board" where
  "put_all b [] = Inr b"
| "put_all b ((idx, n, ow) # rest) =
     (case put b idx n ow of Inl e \<Rightarrow> Inl e | Inr b' \<Rightarrow> put_all b' rest)"

definition standard_setup :: "error + Board" where
  "standard_setup =
     put_all Board0
       [(24, 2, WHITE), (13, 5, WHITE), (8, 3, WHITE), (6, 5, WHITE),
        (1, 2, BLACK), (12, 5, BLACK), (17, 3, BLACK), (19, 5, BLACK)]"

subsection \<open>Queries\<close>

definition is_blocked_for :: "Board \<Rightarrow> int \<Rightarrow> Player \<Rightarrow> error + bool" where
  "is_blocked_for b idx p =
     (if \<not> (1 \<le> idx \<and> idx \<le> 24) then Inr False
      else (case point_at b idx of
              Inl e \<Rightarrow> Inl e
            | Inr pt \<Rightarrow> Inr (owner pt = Some (opponent p) \<and> checkers pt \<ge> 2)))"

definition can_hit :: "Board \<Rightarrow> int \<Rightarrow> Player \<Rightarrow> error + bool" where
  "can_hit b idx p =
     (if \<not> (1 \<le> idx \<and> idx \<le> 24) then Inr False
      else (case point_at b idx of
              Inl e \<Rightarrow> Inl e
            | Inr pt \<Rightarrow> Inr (owner pt = Some (opponent p) \<and> checkers pt = 1)))"

definition all_in_home :: "Board \<Rightarrow> Player \<Rightarrow> bool" where
  "all_in_home b p =
     list_all (\<lambda>(i, pt). owner pt = Some p \<longrightarrow>
                 (int i \<in> set (home_range p) \<or> int i = off_index p))
       (enumerate 0 (points b))"

definition count_on_bar :: "Board \<Rightarrow> Player \<Rightarrow> error + int" where
  "count_on_bar b p =
     (case point_at b (bar_index p) of Inl e \<Rightarrow> Inl e | Inr pt \<Rightarrow> Inr (checkers pt))"

definition count_off :: "Board \<Rightarrow> Player \<Rightarrow> error + int" where
  "count_off b p =
     (case point_at b (off_index p) of Inl e \<Rightarrow> Inl e | Inr pt \<Rightarrow> Inr (checkers pt))"

subsection \<open>Single moves\<close>

text \<open>
  The two \<^verbatim>\<open>for d in dice_list\<close> loops of \<^verbatim>\<open>legal_single_targets\<close>, each
  building the result list in dice order: entering from the bar, and moving
  from a board point (with bearing off).
\<close>

fun enter_loop :: "Board \<Rightarrow> Player \<Rightarrow> int list \<Rightarrow> error + (int \<times> int) list" where
  "enter_loop b p [] = Inr []"
| "enter_loop b p (d # ds) =
     (let e = (if p = WHITE then 25 - d else d) in
      if 1 \<le> e \<and> e \<le> 24 then
        (case is_blocked_for b e p of
           Inl er \<Rightarrow> Inl er
         | Inr blk \<Rightarrow>
             (case enter_loop b p ds of
                Inl er \<Rightarrow> Inl er
              | Inr res \<Rightarrow> Inr (if blk then res else (d, e) # res)))
      else enter_loop b p ds)"

fun point_loop :: "Board \<Rightarrow> Player \<Rightarrow> int \<Rightarrow> int list \<Rightarrow> error + (int \<times> int) list" where
  "point_loop b p s [] = Inr []"
| "point_loop b p s (d # ds) =
     (let e = s + dir p * d in
      if (p = WHITE \<and> e < 1) \<or> (p = BLACK \<and> e > 24) then
        (case point_loop b p s ds of
           Inl er \<Rightarrow> Inl er
         | Inr res \<Rightarrow> Inr (if all_in_home b p then (d, off_index p) # res else res))
      else if 1 \<le> e \<and> e \<le> 24 then
        (case is_blocked_for b e p of
           Inl er \<Rightarrow> Inl er
         | Inr blk \<Rightarrow>
             (case point_loop b p s ds of
                Inl er \<Rightarrow> Inl er
              | Inr res \<Rightarrow> Inr (if blk then res else (d, e) # res)))
      else point_loop b p s ds)"

definition legal_single_targets ::
    "Board \<Rightarrow> Player \<Rightarrow> int \<Rightarrow> int list \<Rightarrow> error + (int \<times> int) list" where
  "legal_single_targets b p start_idx dice =
     (case count_on_bar b p of
        Inl er \<Rightarrow> Inl er
      | Inr nbar \<Rightarrow>
          if nbar > 0 \<and> start_idx \<noteq> bar_index p then Inr []
          else if start_idx = bar_index p then enter_loop b p dice
          else if \<not> (1 \<le> start_idx \<and> start_idx \<le> 24) then Inr []
          else (case point_at b start_idx of
                  Inl er \<Rightarrow> Inl er
                | Inr pt \<Rightarrow>
                    if owner pt \<noteq> Some p \<or> checkers pt \<le> 0 then Inr []
                    else point_loop b p start_idx dice))"

text \<open>
  \<^verbatim>\<open>apply_single_move\<close> mutates the board in place and may raise half-way, so
  the model returns the board as the call leaves it together with the error
  raised, if any.
\<close>

type_synonym 'a outcome = "error option \<times> 'a"

definition hit_step :: "Board \<Rightarrow> Player \<Rightarrow> int \<Rightarrow> Board outcome" where
  "hit_step b p e =
     (case can_hit b e p of
        Inl er \<Rightarrow> (Some er, b)
      | Inr h \<Rightarrow>
          if h then
            (case update_point b e (\<lambda>pt. Point_remove pt 1) of
               Inl er \<Rightarrow> (Some er, b)
             | Inr b1 \<Rightarrow>
                 (case update_point b1 (bar_index (opponent p))
                         (\<lambda>pt. Point_add pt (opponent p) 1) of
                    Inl er \<Rightarrow> (Some er, b1)
                  | Inr b2 \<Rightarrow> (None, b2)))
          else (None, b))"

definition place_step :: "Board \<Rightarrow> Player \<Rightarrow> int \<Rightarrow> Board outcome" where
  "place_step b p e =
     (case point_at b e of
        Inl er \<Rightarrow> (Some er, b)
      | Inr pt \<Rightarrow>
          if owner pt = None \<or> owner pt = Some p then
            (case update_point b e (\<lambda>pt. Point_add pt p 1) of
               Inl er \<Rightarrow> (Some er, b)
             | Inr b1 \<Rightarrow> (None, b1))
          else (Some RuntimeError, b))"

definition apply_single_move :: "Board \<Rightarrow> Player \<Rightarrow> int \<Rightarrow> int \<Rightarrow> Board outcome" where
  "apply_single_move b p s e =
     (case update_point b s (\<lambda>pt. Point_remove pt 1) of
        Inl er \<Rightarrow> (Some er, b)
      | Inr b1 \<Rightarrow>
          if e = off_index p then
            (case update_point b1 (off_index p) (\<lambda>pt. Point_add pt p 1) of
               Inl er \<Rightarrow> (Some er, b1)
             | Inr b2 \<Rightarrow> (None, b2))
          else
            (case hit_step b1 p e of
               (Some er, b2) \<Rightarrow> (Some er, b2)
             | (None, b2) \<Rightarrow> place_step b2 p e))"

section \<open>Engine (turn state)\<close>

record Engine =
  board :: Board
  turn :: Player
  dice :: "int list"

text \<open>Python's \<^verbatim>\<open>list.remove(x)\<close>: drops the first \<open>x\<close>, ValueError when absent.\<close>

definition list_remove :: "int list \<Rightarrow> int \<Rightarrow> error + int list" where
  "list_remove xs x = (if x \<in> set xs then Inr (remove1 x xs) else Inl ValueError)"

text \<open>
  \<^verbatim>\<open>Engine.apply_route\<close>: each move is applied to the engine's own board, then
  its die is removed inside \<^verbatim>\<open>try ... except ValueError: pass\<close>.
\<close>

definition apply_route_step :: "Engine \<Rightarrow> Move \<Rightarrow> Engine outcome" where
  "apply_route_step en m =
     (case apply_single_move (board en) (turn en) (start m) (end_idx m) of
        (Some er, b') \<Rightarrow> (Some er, en\<lparr>board := b'\<rparr>)
      | (None, b') \<Rightarrow>
          (case list_remove (dice en) (die m) of
             Inr ds \<Rightarrow> (None, en\<lparr>board := b', dice := ds\<rparr>)
           | Inl er \<Rightarrow>
               if er = ValueError then (None, en\<lparr>board := b'\<rparr>)
               else (Some er, en\<lparr>board := b'\<rparr>)))"

fun apply_moves :: "Engine \<Rightarrow> Move list \<Rightarrow> Engine outcome" where
  "apply_moves en [] = (None, en)"
| "apply_moves en (m # ms) =
     (case apply_route_step en m of
        (Some er, en') \<Rightarrow> (Some er, en')
      | (None, en') \<Rightarrow> apply_moves en' ms)"

definition apply_route :: "Engine \<Rightarrow> TurnRoute \<Rightarrow> Engine outcome" where
  "apply_route en r = apply_moves en (moves r)"

definition end_turn :: "Engine \<Rightarrow> Engine" where
  "end_turn en = en\<lparr>turn := opponent (turn en), dice := []\<rparr>"

definition has_won :: "Engine \<Rightarrow> Player \<Rightarrow> error + bool" where
  "has_won en p =
     (case count_off (board en) p of Inl er \<Rightarrow> Inl er | Inr n \<Rightarrow> Inr (n \<ge> 15))"

section \<open>Bar and off-tray features of the two evaluators\<close>

text \<open>\<^verbatim>\<open>Evaluator.count_on_bar\<close> and \<^verbatim>\<open>Evaluator.count_borne_off\<close> (ai\_minimax.py).\<close>

definition Evaluator_count_on_bar :: "Board \<Rightarrow> Player \<Rightarrow> error + int" where
  "Evaluator_count_on_bar b p =
     (case point_at b (if p = WHITE then 0 else 25) of
        Inl er \<Rightarrow> Inl er | Inr pt \<Rightarrow> Inr (checkers pt))"

definition Evaluator_count_borne_off :: "Board \<Rightarrow> Player \<Rightarrow> error + int" where
  "Evaluator_count_borne_off b p =
     (case point_at b (if p = WHITE then 25 else 0) of
        Inl er \<Rightarrow> Inl er | Inr pt \<Rightarrow> Inr (checkers pt))"

text \<open>\<^verbatim>\<open>on_bar\<close> and \<^verbatim>\<open>borne_off\<close> (ai\_fuzzy.py).\<close>

definition on_bar :: "Board \<Rightarrow> Player \<Rightarrow> error + int" where
  "on_bar b p =
     (case point_at b (if p = WHITE then 0 else 25) of
        Inl er \<Rightarrow> Inl er | Inr pt \<Rightarrow> Inr (checkers pt))"

definition borne_off :: "Board \<Rightarrow> Player \<Rightarrow> error + int" where
  "borne_off b p =
     (case point_at b (if p = WHITE then 25 else 0) of
        Inl er \<Rightarrow> Inl er | Inr pt \<Rightarrow> Inr (checkers pt))"

section \<open>Example positions\<close>

definition mk :: "int \<Rightarrow> Player \<Rightarrow> Point" where
  "mk n ow = \<lparr>checkers = n, owner = Some ow\<rparr>"

text \<open>
  WHITE has one checker on the bar, one on point 10 and 13 borne off; BLACK
  holds points 9 and 21 with two checkers each and point 1 with eleven.
\<close>

definition bar_position :: Board where
  "bar_position = \<lparr>points =
     [mk 1 WHITE, mk 11 BLACK, Point0, Point0, Point0, Point0, Point0,
      Point0, Point0, mk 2 BLACK, mk 1 WHITE, Point0, Point0, Point0,
      Point0, Point0, Point0, Point0, Point0, Point0, Point0,
      mk 2 BLACK, Point0, Point0, Point0, mk 13 WHITE, Point0, Point0]\<rparr>"

text \<open>
  BLACK has one checker on the bar (slot 26), two borne off (slot 27) and
  twelve on point 19; WHITE has five borne off (slot 25) and ten on point 6.
\<close>

definition black_bar_position :: Board where
  "black_bar_position = \<lparr>points =
     [Point0, Point0, Point0, Point0, Point0, Point0, mk 10 WHITE,
      Point0, Point0, Point0, Point0, Point0, Point0, Point0,
      Point0, Point0, Point0, Point0, Point0, mk 12 BLACK, Point0,
      Point0, Point0, Point0, Point0, mk 5 WHITE, mk 1 BLACK, mk 2 BLACK]\<rparr>"

section \<open>Invariants of the data model\<close>

text \<open>
  The per-point invariant of the data model: a pocket is empty exactly when it
  has no owner, and its count is never negative. The owner field holds at most
  one player, so a pocket never holds checkers of two owners.
\<close>

definition point_inv :: "Point \<Rightarrow> bool" where
  "point_inv pt \<longleftrightarrow> (checkers pt = 0 \<longleftrightarrow> owner pt = None) \<and> checkers pt \<ge> 0"

text \<open>
  A player's bar and off-tray slots never hold the opponent's checkers, and a
  board has 28 pockets.
\<close>

definition slot_owner_ok :: "Board \<Rightarrow> Player \<Rightarrow> bool" where
  "slot_owner_ok b p \<longleftrightarrow>
     owner (points b ! nat (bar_index p)) \<noteq> Some (opponent p)
     \<and> owner (points b ! nat (off_index p)) \<noteq> Some (opponent p)"

definition board_inv :: "Board \<Rightarrow> bool" where
  "board_inv b \<longleftrightarrow>
     length (points b) = 28 \<and> list_all point_inv (points b)
     \<and> slot_owner_ok b WHITE \<and> slot_owner_ok b BLACK"

text \<open>A player's total checker count over all pockets of the board.\<close>

definition contrib :: "Player \<Rightarrow> Point \<Rightarrow> int" where
  "contrib p pt = (if owner pt = Some p then checkers pt else 0)"

definition total :: "Board \<Rightarrow> Player \<Rightarrow> int" where
  "total b p = sum_list (map (contrib p) (points b))"

text \<open>
  The point after \<^verbatim>\<open>remove(1)\<close> and after \<^verbatim>\<open>add(p, 1)\<close> when they succeed,
  and the board with the point at index \<open>i\<close> so changed.
\<close>

definition take1 :: "Point \<Rightarrow> Point" where
  "take1 pt = (if checkers pt = 1 then pt\<lparr>checkers := 0, owner := None\<rparr>
               else pt\<lparr>checkers := checkers pt - 1\<rparr>)"

definition give1 :: "Player \<Rightarrow> Point \<Rightarrow> Point" where
  "give1 p pt = (if owner pt = None then pt\<lparr>owner := Some p, checkers := 1\<rparr>
               else pt\<lparr>checkers := checkers pt + 1\<rparr>)"

definition sub1 :: "Board \<Rightarrow> int \<Rightarrow> Board" where
  "sub1 b i = b\<lparr>points := (points b)[nat i := take1 (points b ! nat i)]\<rparr>"

definition add1 :: "Board \<Rightarrow> Player \<Rightarrow> int \<Rightarrow> Board" where
  "add1 b p i = b\<lparr>points := (points b)[nat i := give1 p (points b ! nat i)]\<rparr>"

text \<open>A slot that player \<open>p\<close> may occupy: not the opponent's bar or off-tray.\<close>

definition may_hold :: "Player \<Rightarrow> int \<Rightarrow> bool" where
  "may_hold p i \<longleftrightarrow> 0 \<le> i \<and> i \<le> 27 \<and> i \<noteq> bar_index (opponent p) \<and> i \<noteq> off_index (opponent p)"

text \<open>What a pair returned by \<^verbatim>\<open>legal_single_targets\<close> tells about the move.\<close>

definition from_bar :: "Board \<Rightarrow> Player \<Rightarrow> int \<Rightarrow> int \<Rightarrow> bool" where
  "from_bar b p s e \<longleftrightarrow>
     s = bar_index p \<and> 1 \<le> e \<and> e \<le> 24 \<and> is_blocked_for b e p = Inr False"

definition from_point :: "Board \<Rightarrow> Player \<Rightarrow> int \<Rightarrow> int \<Rightarrow> bool" where
  "from_point b p s e \<longleftrightarrow>
     1 \<le> s \<and> s \<le> 24 \<and> point_at b s \<noteq> Inl IndexError
     \<and> (\<forall>pt. point_at b s = Inr pt \<longrightarrow> owner pt = Some p \<and> checkers pt > 0)
     \<and> (e = off_index p \<or> (1 \<le> e \<and> e \<le> 24 \<and> is_blocked_for b e p = Inr False))"

text \<open>The standard opening position, written out.\<close>

definition standard_board :: Board where
  "standard_board = \<lparr>points =
     [Point0, mk 2 BLACK, Point0, Point0, Point0, Point0, mk 5 WHITE,
      Point0, mk 3 WHITE, Point0, Point0, Point0, mk 5 BLACK, mk 5 WHITE,
      Point0, Point0, Point0, mk 3 BLACK, Point0, mk 5 BLACK, Point0,
      Point0, Point0, Point0, mk 2 WHITE, Point0, Point0, Point0]\<rparr>"

text \<open>
  Boards reachable from the standard setup by moves that
  \<^verbatim>\<open>legal_single_targets\<close> returns, for either player and any dice.
\<close>

inductive reachable :: "Board \<Rightarrow> bool" where
  reach_setup: "standard_setup = Inr b \<Longrightarrow> reachable b"
| reach_move: "reachable b \<Longrightarrow> legal_single_targets b p s ds = Inr ts \<Longrightarrow> (d, e) \<in> set ts \<Longrightarrow>
         apply_single_move b p s e = (r, b') \<Longrightarrow> reachable b'"

text \<open>The standard position after WHITE plays 24 to 21.\<close>

definition opening_24_21 :: Board where
  "opening_24_21 = \<lparr>points =
     [Point0, mk 2 BLACK, Point0, Point0, Point0, Point0, mk 5 WHITE,
      Point0, mk 3 WHITE, Point0, Point0, Point0, mk 5 BLACK, mk 5 WHITE,
      Point0, Point0, Point0, mk 3 BLACK, Point0, mk 5 BLACK, Point0,
      mk 1 WHITE, Point0, Point0, mk 1 WHITE, Point0, Point0, Point0]\<rparr>"

text \<open>WHITE enters from the bar with a 1 while only a 3 is left in the dice.\<close>

definition bar_entered_24 :: Board where
  "bar_entered_24 = \<lparr>points =
     [Point0, mk 11 BLACK, Point0, Point0, Point0, Point0, Point0,
      Point0, Point0, mk 2 BLACK, mk 1 WHITE, Point0, Point0, Point0,
      Point0, Point0, Point0, Point0, Point0, Point0, Point0,
      mk 2 BLACK, Point0, Point0, mk 1 WHITE, mk 13 WHITE, Point0, Point0]\<rparr>"

text \<open>
  From the standard position BLACK plays 12 to 14, then WHITE plays 24 to 18
  and 18 to 14, hitting the blot: BLACK has one checker on the bar.
\<close>

definition after_12_14 :: Board where
  "after_12_14 = \<lparr>points =
     [Point0, mk 2 BLACK, Point0, Point0, Point0, Point0, mk 5 WHITE,
      Point0, mk 3 WHITE, Point0, Point0, Point0, mk 4 BLACK, mk 5 WHITE,
      mk 1 BLACK, Point0, Point0, mk 3 BLACK, Point0, mk 5 BLACK, Point0,
      Point0, Point0, Point0, mk 2 WHITE, Point0, Point0, Point0]\<rparr>"

definition after_24_18 :: Board where
  "after_24_18 = \<lparr>points =
     [Point0, mk 2 BLACK, Point0, Point0, Point0, Point0, mk 5 WHITE,
      Point0, mk 3 WHITE, Point0, Point0, Point0, mk 4 BLACK, mk 5 WHITE,
      mk 1 BLACK, Point0, Point0, mk 3 BLACK, mk 1 WHITE, mk 5 BLACK, Point0,
      Point0, Point0, Point0, mk 1 WHITE, Point0, Point0, Point0]\<rparr>"

definition hit_position :: Board where
  "hit_position = \<lparr>points =
     [Point0, mk 2 BLACK, Point0, Point0, Point0, Point0, mk 5 WHITE,
      Point0, mk 3 WHITE, Point0, Point0, Point0, mk 4 BLACK, mk 5 WHITE,
      mk 1 WHITE, Point0, Point0, mk 3 BLACK, Point0, mk 5 BLACK, Point0,
      Point0, Point0, Point0, mk 1 WHITE, Point0, mk 1 BLACK, Point0]\<rparr>"

section \<open>What applying a route does to the board and to the dice\<close>

text \<open>
  The board mutations of a move list, one \<^verbatim>\<open>apply_single_move\<close> after the
  other up to the first that raises, and the moves so applied.
\<close>

fun apply_boards :: "Board \<Rightarrow> Player \<Rightarrow> Move list \<Rightarrow> Board outcome" where
  "apply_boards b p [] = (None, b)"
| "apply_boards b p (m # ms) =
     (case apply_single_move b p (start m) (end_idx m) of
        (Some er, b') \<Rightarrow> (Some er, b')
      | (None, b') \<Rightarrow> apply_boards b' p ms)"

fun applied :: "Board \<Rightarrow> Player \<Rightarrow> Move list \<Rightarrow> Move list" where
  "applied b p [] = []"
| "applied b p (m # ms) =
     (case apply_single_move b p (start m) (end_idx m) of
        (Some er, b') \<Rightarrow> []
      | (None, b') \<Rightarrow> m # applied b' p ms)"

text \<open>\<open>bar_position\<close> after WHITE enters on point 24 and plays 10 to 7.\<close>

definition bar_played_24_7 :: Board where
  "bar_played_24_7 = \<lparr>points =
     [Point0, mk 11 BLACK, Point0, Point0, Point0, Point0, Point0,
      mk 1 WHITE, Point0, mk 2 BLACK, Point0, Point0, Point0, Point0,
      Point0, Point0, Point0, Point0, Point0, Point0, Point0,
      mk 2 BLACK, Point0, Point0, mk 1 WHITE, mk 13 WHITE, Point0, Point0]\<rparr>"

section \<open>A game played to the end\<close>

text \<open>
  \<open>run_moves\<close> plays a list of moves \<open>(player, start, end, die)\<close> from a board,
  each of which must be returned by \<^verbatim>\<open>legal_single_targets\<close> for its die on the
  current board and must apply without raising.
\<close>

fun run_moves :: "Board \<Rightarrow> (Player \<times> int \<times> int \<times> int) list \<Rightarrow> Board option" where
  "run_moves b [] = Some b"
| "run_moves b ((p, s, e, d) # ms) =
     (case legal_single_targets b p s [d] of
        Inl er \<Rightarrow> None
      | Inr ts \<Rightarrow>
          if (d, e) \<in> set ts then
            (case apply_single_move b p s e of
               (Some er, b') \<Rightarrow> None
             | (None, b') \<Rightarrow> run_moves b' ms)
          else None)"

text \<open>
  WHITE brings every checker to point 6 with dice from 1 to 6 and bears off
  fourteen of them; \<open>almost_won\<close> is the board then reached, \<open>won_position\<close> the
  board after the last checker is borne off.
\<close>

definition white_home_run :: "(Player \<times> int \<times> int \<times> int) list" where
  "white_home_run =
     concat (replicate 2 [(WHITE, 24, 18, 6), (WHITE, 18, 13, 5)])
     @ concat (replicate 7 [(WHITE, 13, 7, 6), (WHITE, 7, 6, 1)])
     @ replicate 3 (WHITE, 8, 6, 2)
     @ replicate 14 (WHITE, 6, 25, 6)"

definition almost_won :: Board where
  "almost_won = \<lparr>points =
     [Point0, mk 2 BLACK, Point0, Point0, Point0, Point0, mk 1 WHITE,
      Point0, Point0, Point0, Point0, Point0, mk 5 BLACK, Point0,
      Point0, Point0, Point0, mk 3 BLACK, Point0, mk 5 BLACK, Point0,
      Point0, Point0, Point0, Point0, mk 14 WHITE, Point0, Point0]\<rparr>"

definition won_position :: Board where
  "won_position = \<lparr>points =
     [Point0, mk 2 BLACK, Point0, Point0, Point0, Point0, Point0,
      Point0, Point0, Point0, Point0, Point0, mk 5 BLACK, Point0,
      Point0, Point0, Point0, mk 3 BLACK, Point0, mk 5 BLACK, Point0,
      Point0, Point0, Point0, Point0, mk 15 WHITE, Point0, Point0]\<rparr>"

section \<open>Route generator (generate\_all\_routes)\<close>

text \<open>
  The candidates of one start: for each remaining die \<open>d\<close>, in order, the pairs
  of \<^verbatim>\<open>legal_single_targets(b, player, start, [d])\<close>.
\<close>

fun cands_loop :: "Board \<Rightarrow> Player \<Rightarrow> int \<Rightarrow> int list \<Rightarrow> error + (int \<times> int) list" where
  "cands_loop b p s [] = Inr []"
| "cands_loop b p s (d # ds) =
     (case legal_single_targets b p s [d] of
        Inl er \<Rightarrow> Inl er
      | Inr ts \<Rightarrow>
          (case cands_loop b p s ds of
             Inl er \<Rightarrow> Inl er
           | Inr cs \<Rightarrow> Inr (ts @ cs)))"

text \<open>
  The locals of one \<^verbatim>\<open>backtrack\<close> call that its loops update: \<^verbatim>\<open>used_any\<close>,
  \<^verbatim>\<open>used_mask\<close> (keys \<open>(start, end, die, sorted remaining)\<close>) and the routes
  appended to \<^verbatim>\<open>routes\<close> so far by this call, in order.
\<close>

type_synonym mask_key = "int \<times> int \<times> int \<times> int list"

type_synonym bt_state = "bool \<times> mask_key set \<times> TurnRoute list"

text \<open>The starts explored: the bar alone when it is occupied, else points 1 to 24.\<close>

definition starts_of :: "Board \<Rightarrow> Player \<Rightarrow> error + int list" where
  "starts_of b p =
     (case count_on_bar b p of
        Inl er \<Rightarrow> Inl er
      | Inr nbar \<Rightarrow> Inr (if nbar > 0 then [bar_index p] else [1 .. 24]))"

text \<open>
  \<^verbatim>\<open>backtrack\<close> with its loop over the starts and its loop over the
  candidates of a start. Each candidate not yet in the mask is applied to a
  clone of the board, its die is removed from a copy of the remaining dice and
  the search recurses; an exception anywhere aborts the whole search. The call
  returns the routes it appended.
\<close>

function backtrack :: "Player \<Rightarrow> Board \<Rightarrow> int list \<Rightarrow> Move list \<Rightarrow> error + TurnRoute list"
  and starts_loop :: "Player \<Rightarrow> Board \<Rightarrow> int list \<Rightarrow> Move list \<Rightarrow> int list \<Rightarrow> bt_state
                        \<Rightarrow> error + bt_state"
  and moves_loop :: "Player \<Rightarrow> Board \<Rightarrow> int list \<Rightarrow> Move list \<Rightarrow> int \<Rightarrow> (int \<times> int) list
                        \<Rightarrow> bt_state \<Rightarrow> error + bt_state"
where
  "backtrack p b rem acc =
     (if rem = [] then Inr [\<lparr>moves = acc\<rparr>]
      else (case starts_of b p of
              Inl er \<Rightarrow> Inl er
            | Inr starts \<Rightarrow>
                (case starts_loop p b rem acc starts (False, {}, []) of
                   Inl er \<Rightarrow> Inl er
                 | Inr (used_any, used_mask, routes) \<Rightarrow>
                     Inr (if \<not> used_any then routes @ [\<lparr>moves = acc\<rparr>] else routes))))"
| "starts_loop p b rem acc [] st = Inr st"
| "starts_loop p b rem acc (s # ss) st =
     (case cands_loop b p s rem of
        Inl er \<Rightarrow> Inl er
      | Inr cands \<Rightarrow>
          (case moves_loop p b rem acc s cands st of
             Inl er \<Rightarrow> Inl er
           | Inr st' \<Rightarrow> starts_loop p b rem acc ss st'))"
| "moves_loop p b rem acc s [] st = Inr st"
| "moves_loop p b rem acc s ((d, e) # cs) (used_any, used_mask, routes) =
     (if (s, e, d, sort rem) \<in> used_mask
      then moves_loop p b rem acc s cs (used_any, used_mask, routes)
      else (case apply_single_move (clone b) p s e of
              (Some er, b2) \<Rightarrow> Inl er
            | (None, b2) \<Rightarrow>
                (case list_remove rem d of
                   Inl er \<Rightarrow> Inl er
                 | Inr rem' \<Rightarrow>
                     (case backtrack p b2 rem' (acc @ [\<lparr>start = s, end_idx = e, die = d\<rparr>]) of
                        Inl er \<Rightarrow> Inl er
                      | Inr sub \<Rightarrow>
                          moves_loop p b rem acc s cs
                            (True, insert (s, e, d, sort rem) used_mask, routes @ sub)))))"
  by pat_completeness auto
termination
  by (relation "inv_image (less_than <*lex*> less_than <*lex*> less_than)
        (\<lambda>x. case x of
           Inl (p, b, rem, acc) \<Rightarrow> (length rem, 2, 0)
         | Inr (Inl (p, b, rem, acc, ss, st)) \<Rightarrow> (length rem, 1, length ss)
         | Inr (Inr (p, b, rem, acc, s, cs, st)) \<Rightarrow> (length rem, 0, length cs))")
     (auto simp: list_remove_def length_remove1 split: if_splits
       intro!: diff_less intro: length_pos_if_in_set)

text \<open>
  The final de-duplication: a dict keyed by the tuple of \<open>(start, end, die)\<close>
  triples, in insertion order, a later equal key overwriting the value in place.
\<close>

definition route_key :: "TurnRoute \<Rightarrow> (int \<times> int \<times> int) list" where
  "route_key r = map (\<lambda>m. (start m, end_idx m, die m)) (moves r)"

definition uniq_routes :: "TurnRoute list \<Rightarrow> TurnRoute list" where
  "uniq_routes rs = map snd (fold (\<lambda>r u. AList.update (route_key r) r u) rs [])"

definition generate_all_routes :: "Board \<Rightarrow> Player \<Rightarrow> int list \<Rightarrow> error + TurnRoute list" where
  "generate_all_routes b p ds =
     (case backtrack p b ds [] of
        Inl er \<Rightarrow> Inl er
      | Inr routes \<Rightarrow> Inr (uniq_routes routes))"

definition generate_routes :: "Engine \<Rightarrow> error + TurnRoute list" where
  "generate_routes en = generate_all_routes (board en) (turn en) (dice en)"

subsection \<open>Playing a route move by move\<close>

text \<open>
  \<open>play\<close> replays a move list from a board with the given dice: every move must
  be one that \<^verbatim>\<open>legal_single_targets\<close> returns for its die on the current
  board, its die must still be available, and applying it must succeed. It
  returns the board reached and the dice left.
\<close>

fun play :: "Board \<Rightarrow> Player \<Rightarrow> int list \<Rightarrow> Move list \<Rightarrow> (Board \<times> int list) option" where
  "play b p rem [] = Some (b, rem)"
| "play b p rem (m # ms) =
     (case legal_single_targets b p (start m) [die m] of
        Inl er \<Rightarrow> None
      | Inr ts \<Rightarrow>
          if (die m, end_idx m) \<in> set ts \<and> die m \<in> set rem then
            (case apply_single_move b p (start m) (end_idx m) of
               (Some er, b') \<Rightarrow> None
             | (None, b') \<Rightarrow> play b' p (remove1 (die m) rem) ms)
          else None)"

text \<open>
  The leaf test of \<^verbatim>\<open>backtrack\<close>: no start it explores on this board has a
  legal single move for any of the given dice.
\<close>

definition no_move :: "Board \<Rightarrow> Player \<Rightarrow> int list \<Rightarrow> bool" where
  "no_move b p rem \<longleftrightarrow>
     (case starts_of b p of
        Inl er \<Rightarrow> False
      | Inr ss \<Rightarrow> list_all (\<lambda>s. list_all (\<lambda>d. legal_single_targets b p s [d] = Inr []) rem) ss)"

text \<open>
  No pocket that holds a checker, whatever its index, has a legal single move
  for any of the given dice. This is stated over every index, not over the
  starts the generator explores.
\<close>

definition stuck :: "Board \<Rightarrow> Player \<Rightarrow> int list \<Rightarrow> bool" where
  "stuck b p rem \<longleftrightarrow>
     (\<forall>s d pt. d \<in> set rem \<longrightarrow> point_at b s = Inr pt \<longrightarrow> checkers pt > 0 \<longrightarrow>
        legal_single_targets b p s [d] = Inr [])"

text \<open>
  A route of \<^verbatim>\<open>backtrack\<close> called with accumulator \<open>acc\<close>: the accumulator
  followed by a playable move list that ends with no dice or with no move left.
\<close>

definition finished :: "Board \<Rightarrow> Player \<Rightarrow> int list \<Rightarrow> Move list \<Rightarrow> TurnRoute \<Rightarrow> bool" where
  "finished b p rem acc r \<longleftrightarrow>
     (\<exists>ms b' rem'. moves r = acc @ ms \<and> play b p rem ms = Some (b', rem')
        \<and> length ms + length rem' = length rem \<and> (rem' = [] \<or> no_move b' p rem'))"

text \<open>Loop invariant of the two loops: nothing used yet means an empty mask.\<close>

definition fresh_ok :: "bt_state \<Rightarrow> bool" where
  "fresh_ok st \<longleftrightarrow> (\<not> fst st \<longrightarrow> fst (snd st) = {})"

text \<open>
  From \<open>bar_position\<close> with dice 3 and 1: entering with the 3 on point 22 leaves
  the 1 unplayable (points 21 and 9 are blocked); entering with the 1 on point
  24 lets the 3 be played from point 10.
\<close>

definition bar_entered_22 :: Board where
  "bar_entered_22 = \<lparr>points =
     [Point0, mk 11 BLACK, Point0, Point0, Point0, Point0, Point0,
      Point0, Point0, mk 2 BLACK, mk 1 WHITE, Point0, Point0, Point0,
      Point0, Point0, Point0, Point0, Point0, Point0, Point0,
      mk 2 BLACK, mk 1 WHITE, Point0, Point0, mk 13 WHITE, Point0, Point0]\<rparr>"

definition route_22 :: TurnRoute where
  "route_22 = \<lparr>moves = [\<lparr>start = 0, end_idx = 22, die = 3\<rparr>]\<rparr>"

definition route_24_7 :: TurnRoute where
  "route_24_7 = \<lparr>moves = [\<lparr>start = 0, end_idx = 24, die = 1\<rparr>, \<lparr>start = 10, end_idx = 7, die = 3\<rparr>]\<rparr>"

section \<open>Route generation over a store of board objects\<close>

text \<open>
  To state which board objects a call mutates, boards live in a store and are
  named by their address; a deep copy allocates a new address. A board's point
  list and points belong to that board alone (boards are only ever built
  fresh or deep-copied), so the store holds whole boards.
\<close>

type_synonym store = "Board list"

text \<open>\<^verbatim>\<open>b.clone()\<close>: a new object, equal to the board at \<open>a\<close>.\<close>

definition clone_at :: "store \<Rightarrow> nat \<Rightarrow> store \<times> nat" where
  "clone_at h a = (h @ [clone (h ! a)], length h)"

text \<open>\<^verbatim>\<open>apply_single_move\<close> mutates the object it is given, at its address.\<close>

definition apply_single_move_at :: "store \<Rightarrow> nat \<Rightarrow> Player \<Rightarrow> int \<Rightarrow> int \<Rightarrow> store outcome" where
  "apply_single_move_at h a p s e =
     (case apply_single_move (h ! a) p s e of (r, b') \<Rightarrow> (r, h[a := b']))"

text \<open>\<^verbatim>\<open>legal_single_targets\<close> only reads the board it is given.\<close>

definition legal_single_targets_at ::
    "store \<Rightarrow> nat \<Rightarrow> Player \<Rightarrow> int \<Rightarrow> int list \<Rightarrow> (error + (int \<times> int) list) \<times> store" where
  "legal_single_targets_at h a p s ds = (legal_single_targets (h ! a) p s ds, h)"

text \<open>
  \<^verbatim>\<open>backtrack\<close> again, with the store threaded through every call: the board
  \<open>b\<close> is the object at address \<open>a\<close>, \<open>b2\<close> the clone the move is applied to.
\<close>

function backtrack_at ::
    "Player \<Rightarrow> store \<Rightarrow> nat \<Rightarrow> int list \<Rightarrow> Move list \<Rightarrow> (error + TurnRoute list) \<times> store"
  and starts_loop_at ::
    "Player \<Rightarrow> store \<Rightarrow> nat \<Rightarrow> int list \<Rightarrow> Move list \<Rightarrow> int list \<Rightarrow> bt_state
       \<Rightarrow> (error + bt_state) \<times> store"
  and moves_loop_at ::
    "Player \<Rightarrow> store \<Rightarrow> nat \<Rightarrow> int list \<Rightarrow> Move list \<Rightarrow> int \<Rightarrow> (int \<times> int) list
       \<Rightarrow> bt_state \<Rightarrow> (error + bt_state) \<times> store"
where
  "backtrack_at p h a rem acc =
     (if rem = [] then (Inr [\<lparr>moves = acc\<rparr>], h)
      else (case starts_of (h ! a) p of
              Inl er \<Rightarrow> (Inl er, h)
            | Inr starts \<Rightarrow>
                (case starts_loop_at p h a rem acc starts (False, {}, []) of
                   (Inl er, h') \<Rightarrow> (Inl er, h')
                 | (Inr (used_any, used_mask, routes), h') \<Rightarrow>
                     (Inr (if \<not> used_any then routes @ [\<lparr>moves = acc\<rparr>] else routes), h'))))"
| "starts_loop_at p h a rem acc [] st = (Inr st, h)"
| "starts_loop_at p h a rem acc (s # ss) st =
     (case cands_loop (h ! a) p s rem of
        Inl er \<Rightarrow> (Inl er, h)
      | Inr cands \<Rightarrow>
          (case moves_loop_at p h a rem acc s cands st of
             (Inl er, h') \<Rightarrow> (Inl er, h')
           | (Inr st', h') \<Rightarrow> starts_loop_at p h' a rem acc ss st'))"
| "moves_loop_at p h a rem acc s [] st = (Inr st, h)"
| "moves_loop_at p h a rem acc s ((d, e) # cs) (used_any, used_mask, routes) =
     (if (s, e, d, sort rem) \<in> used_mask
      then moves_loop_at p h a rem acc s cs (used_any, used_mask, routes)
      else (case clone_at h a of
              (h1, a2) \<Rightarrow>
                (case apply_single_move_at h1 a2 p s e of
                   (Some er, h2) \<Rightarrow> (Inl er, h2)
                 | (None, h2) \<Rightarrow>
                     (case list_remove rem d of
                        Inl er \<Rightarrow> (Inl er, h2)
                      | Inr rem' \<Rightarrow>
                          (case backtrack_at p h2 a2 rem' (acc @ [\<lparr>start = s, end_idx = e, die = d\<rparr>]) of
                             (Inl er, h3) \<Rightarrow> (Inl er, h3)
                           | (Inr sub, h3) \<Rightarrow>
                               moves_loop_at p h3 a rem acc s cs
                                 (True, insert (s, e, d, sort rem) used_mask, routes @ sub))))))"
  by pat_completeness auto
termination
  by (relation "inv_image (less_than <*lex*> less_than <*lex*> less_than)
        (\<lambda>x. case x of
           Inl (p, h, a, rem, acc) \<Rightarrow> (length rem, 2, 0)
         | Inr (Inl (p, h, a, rem, acc, ss, st)) \<Rightarrow> (length rem, 1, length ss)
         | Inr (Inr (p, h, a, rem, acc, s, cs, st)) \<Rightarrow> (length rem, 0, length cs))")
     (auto simp: list_remove_def length_remove1 split: if_splits
       intro!: diff_less intro: length_pos_if_in_set)

definition generate_all_routes_at ::
    "store \<Rightarrow> nat \<Rightarrow> Player \<Rightarrow> int list \<Rightarrow> (error + TurnRoute list) \<times> store" where
  "generate_all_routes_at h a p ds =
     (case backtrack_at p h a ds [] of
        (Inl er, h') \<Rightarrow> (Inl er, h')
      | (Inr routes, h') \<Rightarrow> (Inr (uniq_routes routes), h'))"

text \<open>\<open>h'\<close> keeps every board of \<open>h\<close> as it is and may hold further boards.\<close>

definition extends :: "store \<Rightarrow> store \<Rightarrow> bool" where
  "extends h h' \<longleftrightarrow> (\<exists>ext. h' = h @ ext)"

text \<open>A start the generator explores: the bar only when it is occupied.\<close>

definition explored :: "Board \<Rightarrow> Player \<Rightarrow> int \<Rightarrow> bool" where
  "explored b p s \<longleftrightarrow> (s = bar_index p \<longrightarrow> count_on_bar b p \<noteq> Inr 0)"

section \<open>Minimax search (ai\_minimax.py)\<close>

text \<open>
  Scores are Python floats with \<^verbatim>\<open>-math.inf\<close> and \<^verbatim>\<open>math.inf\<close>; the finite ones
  are idealised as reals. Comparison, negation, \<^verbatim>\<open>min\<close>, \<^verbatim>\<open>max\<close> and
  \<^verbatim>\<open>math.isclose\<close> (relative tolerance \<open>1e-9\<close>, absolute tolerance 0) on them.
\<close>

datatype score = MInf | Finite real | PInf

fun sc_neg :: "score \<Rightarrow> score" where
  "sc_neg MInf = PInf"
| "sc_neg (Finite x) = Finite (- x)"
| "sc_neg PInf = MInf"

fun sc_less :: "score \<Rightarrow> score \<Rightarrow> bool" where
  "sc_less (Finite x) (Finite y) = (x < y)"
| "sc_less MInf MInf = False"
| "sc_less MInf b = True"
| "sc_less a PInf = (a \<noteq> PInf)"
| "sc_less a b = False"

definition sc_ge :: "score \<Rightarrow> score \<Rightarrow> bool" where
  "sc_ge a b \<longleftrightarrow> a = b \<or> sc_less b a"

definition sc_min :: "score \<Rightarrow> score \<Rightarrow> score" where
  "sc_min a b = (if sc_less b a then b else a)"

definition sc_max :: "score \<Rightarrow> score \<Rightarrow> score" where
  "sc_max a b = (if sc_less a b then b else a)"

fun isclose :: "score \<Rightarrow> score \<Rightarrow> bool" where
  "isclose (Finite x) (Finite y) =
     (x = y \<or> \<bar>y - x\<bar> \<le> \<bar>(1 / 10 ^ 9) * y\<bar> \<or> \<bar>y - x\<bar> \<le> \<bar>(1 / 10 ^ 9) * x\<bar> \<or> \<bar>y - x\<bar> \<le> 0)"
| "isclose a b = (a = b)"

text \<open>
  The random generator is an explicit state \<open>'g\<close> with its two draws:
  \<^verbatim>\<open>random.randint(1, 6)\<close> and \<^verbatim>\<open>random.random()\<close>.
\<close>

record 'g rand_src =
  randint16 :: "'g \<Rightarrow> int \<times> 'g"
  random01 :: "'g \<Rightarrow> real \<times> 'g"

text \<open>\<^verbatim>\<open>roll_dice\<close> and \<^verbatim>\<open>Engine.roll\<close>.\<close>

definition roll_dice :: "'g rand_src \<Rightarrow> 'g \<Rightarrow> int list \<times> 'g" where
  "roll_dice rs g =
     (case randint16 rs g of
        (a, g1) \<Rightarrow>
          (case randint16 rs g1 of
             (b, g2) \<Rightarrow> (if a = b then [a, b, a, b] else [a, b], g2)))"

definition roll :: "'g rand_src \<Rightarrow> Engine \<Rightarrow> 'g \<Rightarrow> Engine \<times> 'g" where
  "roll rs en g = (case roll_dice rs g of (ds, g') \<Rightarrow> (en\<lparr>dice := ds\<rparr>, g'))"

record SearchDebug =
  nodes :: int
  leaf_evals :: int
  best_line :: "TurnRoute list"

text \<open>
  \<^verbatim>\<open>_apply_route_on_clone\<close>, \<^verbatim>\<open>_opponent_roll\<close> and \<^verbatim>\<open>_terminal_eval\<close>; the
  engine is deep-copied, so the caller's engine value stays as it is.
\<close>

definition apply_route_on_clone :: "Engine \<Rightarrow> TurnRoute \<Rightarrow> error + Engine" where
  "apply_route_on_clone en r =
     (case apply_route en r of
        (Some er, e2) \<Rightarrow> Inl er
      | (None, e2) \<Rightarrow> Inr (end_turn e2))"

definition opponent_roll :: "'g rand_src \<Rightarrow> Engine \<Rightarrow> 'g \<Rightarrow> Engine \<times> 'g" where
  "opponent_roll rs en g = roll rs en g"

definition terminal_eval :: "Engine \<Rightarrow> (Board \<Rightarrow> Player \<Rightarrow> real) \<Rightarrow> score" where
  "terminal_eval en eval_fn = Finite (eval_fn (board en) (turn en))"

text \<open>
  The state a search call threads: the random generator and the shared
  \<^verbatim>\<open>SearchDebug\<close> object. A call returns \<open>None\<close> when it runs out of fuel, an
  error when an exception escapes, and otherwise its value with the new state.
\<close>

type_synonym 'g search_state = "'g \<times> SearchDebug"

type_synonym ('a, 'g) search_result = "(error + 'a \<times> 'g search_state) option"

text \<open>
  The test \<^verbatim>\<open>score > best_score or (math.isclose(score, best_score) and random.random() < 0.5)\<close>:
  the coin is drawn only when the first disjunct fails and the scores are close.
\<close>

definition take_candidate :: "'g rand_src \<Rightarrow> score \<Rightarrow> score \<Rightarrow> 'g \<Rightarrow> bool \<times> 'g" where
  "take_candidate rs sc best g =
     (if sc_less best sc then (True, g)
      else if isclose sc best then (case random01 rs g of (u, g') \<Rightarrow> (u < 1 / 2, g'))
      else (False, g))"

text \<open>
  \<^verbatim>\<open>minimax\<close> with its loop over the routes and its inner loop over the
  opponent's replies. The loops carry the locals \<open>(alpha, beta, best_score,
  best_line)\<close> and \<open>(alpha, beta, worst_for_me, worst_reply_line)\<close>; the inner
  loop hands the updated \<open>beta\<close> back. A negative depth recurses until no
  route is left, so the recursion is bounded by fuel.
\<close>

function minimax ::
    "'g rand_src \<Rightarrow> (Board \<Rightarrow> Player \<Rightarrow> real) \<Rightarrow> nat \<Rightarrow> Engine \<Rightarrow> int \<Rightarrow> score \<Rightarrow> score
       \<Rightarrow> SearchDebug option \<Rightarrow> 'g \<Rightarrow> (score \<times> TurnRoute list, 'g) search_result"
  and routes_loop ::
    "'g rand_src \<Rightarrow> (Board \<Rightarrow> Player \<Rightarrow> real) \<Rightarrow> nat \<Rightarrow> Engine \<Rightarrow> int \<Rightarrow> TurnRoute list
       \<Rightarrow> score \<times> score \<times> score \<times> TurnRoute list \<Rightarrow> 'g search_state
       \<Rightarrow> (score \<times> TurnRoute list, 'g) search_result"
  and replies_loop ::
    "'g rand_src \<Rightarrow> (Board \<Rightarrow> Player \<Rightarrow> real) \<Rightarrow> nat \<Rightarrow> Engine \<Rightarrow> int \<Rightarrow> TurnRoute
       \<Rightarrow> TurnRoute list \<Rightarrow> score \<times> score \<times> score \<times> TurnRoute list \<Rightarrow> 'g search_state
       \<Rightarrow> (score \<times> score \<times> TurnRoute list, 'g) search_result"
where
  "minimax rs eval_fn 0 en depth alpha beta dbg g = None"
| "minimax rs eval_fn (Suc fuel) en depth alpha beta dbg g =
     (let debug0 = (case dbg of None \<Rightarrow> \<lparr>nodes = 0, leaf_evals = 0, best_line = []\<rparr> | Some d \<Rightarrow> d);
          debug = debug0\<lparr>nodes := nodes debug0 + 1\<rparr>
      in case generate_routes en of
           Inl er \<Rightarrow> Some (Inl er)
         | Inr routes \<Rightarrow>
             if depth = 0 \<or> routes = [] then
               Some (Inr ((terminal_eval en eval_fn, []),
                          (g, debug\<lparr>leaf_evals := leaf_evals debug + 1\<rparr>)))
             else routes_loop rs eval_fn fuel en depth routes (alpha, beta, MInf, []) (g, debug))"
| "routes_loop rs eval_fn fuel en depth [] (alpha, beta, best_score, bline) st =
     Some (Inr ((best_score, bline), st))"
| "routes_loop rs eval_fn fuel en depth (r # rest) (alpha, beta, best_score, bline) (g, debug) =
     (case apply_route_on_clone en r of
        Inl er \<Rightarrow> Some (Inl er)
      | Inr after_my \<Rightarrow>
          (case opponent_roll rs after_my g of
             (after_opp_roll, g1) \<Rightarrow>
               (case generate_routes after_opp_roll of
                  Inl er \<Rightarrow> Some (Inl er)
                | Inr opp_routes \<Rightarrow>
                    (case (if opp_routes = [] \<or> depth - 1 = 0
                           then Some (Inr ((beta, terminal_eval after_opp_roll eval_fn, [r]), (g1, debug)))
                           else replies_loop rs eval_fn fuel after_opp_roll depth r opp_routes
                                  (alpha, beta, PInf, []) (g1, debug)) of
                       None \<Rightarrow> None
                     | Some (Inl er) \<Rightarrow> Some (Inl er)
                     | Some (Inr ((beta', sc, cline), (g2, debug2))) \<Rightarrow>
                         (case take_candidate rs sc best_score g2 of
                            (tk, g3) \<Rightarrow>
                              (let best_score' = (if tk then sc else best_score);
                                   bline' = (if tk then cline else bline);
                                   alpha' = sc_max alpha best_score'
                               in if sc_ge alpha' beta'
                                  then Some (Inr ((best_score', bline'), (g3, debug2)))
                                  else routes_loop rs eval_fn fuel en depth rest
                                         (alpha', beta', best_score', bline') (g3, debug2)))))))"
| "replies_loop rs eval_fn fuel aor depth r [] (alpha, beta, worst, wline) st =
     Some (Inr ((beta, worst, wline), st))"
| "replies_loop rs eval_fn fuel aor depth r (oroute # rest) (alpha, beta, worst, wline) (g, debug) =
     (case apply_route_on_clone aor oroute of
        Inl er \<Rightarrow> Some (Inl er)
      | Inr after_opp0 \<Rightarrow>
          (case (if depth - 2 > 0 then roll rs after_opp0 g else (after_opp0, g)) of
             (after_opp, g1) \<Rightarrow>
               (case minimax rs eval_fn fuel after_opp (depth - 2) (sc_neg beta) (sc_neg alpha)
                       (Some debug) g1 of
                  None \<Rightarrow> None
                | Some (Inl er) \<Rightarrow> Some (Inl er)
                | Some (Inr ((sc0, subline), (g2, debug2))) \<Rightarrow>
                    (let sc = sc_neg sc0;
                         worst' = (if sc_less sc worst then sc else worst);
                         wline' = (if sc_less sc worst then [r, oroute] @ subline else wline);
                         beta' = sc_min beta (sc_neg worst')
                     in if sc_ge alpha beta'
                        then Some (Inr ((beta', worst', wline'), (g2, debug2)))
                        else replies_loop rs eval_fn fuel aor depth r rest
                               (alpha, beta', worst', wline') (g2, debug2)))))"
  by pat_completeness auto
termination
  by (relation "inv_image (less_than <*lex*> less_than <*lex*> less_than)
        (\<lambda>x. case x of
           Inl (rs, ev, fuel, en, depth, alpha, beta, dbg, g) \<Rightarrow> (fuel, 0, 0)
         | Inr (Inl (rs, ev, fuel, en, depth, routes, loc, st)) \<Rightarrow> (fuel, 2, length routes)
         | Inr (Inr (rs, ev, fuel, aor, depth, r, routes, loc, st)) \<Rightarrow> (fuel, 1, length routes))")
     auto

text \<open>A generator and an evaluator to run the search on.\<close>

definition coin_src :: "nat rand_src" where
  "coin_src = \<lparr>randint16 = (\<lambda>g. (1 + int (g mod 6), Suc g)), random01 = (\<lambda>g. (0, Suc g))\<rparr>"

definition count_eval :: "Board \<Rightarrow> Player \<Rightarrow> real" where
  "count_eval b p = real_of_int (total b p)"

section \<open>Fuzzy evaluator (ai\_fuzzy.py)\<close>

text \<open>
  Python floats are IEEE 754 binary64 numbers. A float is embedded as the real
  number it denotes, and every float operation is the exact operation followed
  by the rounding \<open>rnd\<close> of the machine, which the definitions below take as a
  parameter: \<^verbatim>\<open>x - a\<close> is \<open>rnd (x - a)\<close>, \<^verbatim>\<open>x / y\<close> is \<open>rnd (x / y)\<close>, the
  decimal literal \<^verbatim>\<open>0.85\<close> is \<open>rnd (85 / 100)\<close>. Integer arguments are converted
  without error, comparisons are exact, and \<^verbatim>\<open>min\<close> and \<^verbatim>\<open>max\<close> select one of
  their arguments.

  \<open>ieee_like rnd\<close> collects what the proofs use of rounding to nearest in
  binary64: it is monotone and idempotent, it leaves the integers up to
  \<open>2 ^ 53\<close> unchanged, and its error on \<open>x\<close> is at most \<open>\<bar>x\<bar> / 2 ^ 53\<close> (normal
  range) plus \<open>1 / 2 ^ 1075\<close> (half the spacing of the subnormal numbers).
  Overflow is outside the model: the error bound is asked up to \<open>2 ^ 1000\<close> only.
\<close>

definition u53 :: real where
  "u53 = 1 / 2 ^ 53"

definition eta :: real where
  "eta = 1 / 2 ^ 1075"

definition ieee_like :: "(real \<Rightarrow> real) \<Rightarrow> bool" where
  "ieee_like rnd \<longleftrightarrow>
     (\<forall>x y. x \<le> y \<longrightarrow> rnd x \<le> rnd y)
     \<and> (\<forall>x. rnd (rnd x) = rnd x)
     \<and> (\<forall>n :: int. \<bar>n\<bar> \<le> 2 ^ 53 \<longrightarrow> rnd (real_of_int n) = real_of_int n)
     \<and> (\<forall>x. \<bar>x\<bar> \<le> 2 ^ 1000 \<longrightarrow> \<bar>rnd x - x\<bar> \<le> \<bar>x\<bar> * u53 + eta)"


text \<open>
  Float division raises ZeroDivisionError on a zero divisor; \<open>eps9\<close> is the
  literal \<^verbatim>\<open>1e-9\<close>.
\<close>

definition fdiv :: "(real \<Rightarrow> real) \<Rightarrow> real \<Rightarrow> real \<Rightarrow> error + real" where
  "fdiv rnd x y = (if y = 0 then Inl ZeroDivisionError else Inr (rnd (x / y)))"

definition eps9 :: "(real \<Rightarrow> real) \<Rightarrow> real" where
  "eps9 rnd = rnd (1 / 10 ^ 9)"

text \<open>The membership functions \<^verbatim>\<open>tri\<close> and \<^verbatim>\<open>trap\<close>.\<close>

definition tri :: "(real \<Rightarrow> real) \<Rightarrow> real \<Rightarrow> real \<Rightarrow> real \<Rightarrow> real \<Rightarrow> error + real" where
  "tri rnd x a b c =
     (if x \<le> a \<or> x \<ge> c then Inr 0
      else if x = b then Inr 1
      else if x < b then fdiv rnd (rnd (x - a)) (rnd (rnd (b - a) + eps9 rnd))
      else fdiv rnd (rnd (c - x)) (rnd (rnd (c - b) + eps9 rnd)))"

definition trap ::
  "(real \<Rightarrow> real) \<Rightarrow> real \<Rightarrow> real \<Rightarrow> real \<Rightarrow> real \<Rightarrow> real \<Rightarrow> error + real" where
  "trap rnd x a b c d =
     (if x \<le> a \<or> x \<ge> d then Inr 0
      else if b \<le> x \<and> x \<le> c then Inr 1
      else if a < x \<and> x < b then fdiv rnd (rnd (x - a)) (rnd (rnd (b - a) + eps9 rnd))
      else fdiv rnd (rnd (d - x)) (rnd (rnd (d - c) + eps9 rnd)))"

record RouteFeatures =
  pip_gain :: real
  hits :: int
  blots_after :: int
  anchors_after :: int
  my_bar_after :: int
  opp_bar_after :: int
  home_progress_after :: real
  borne_off_after :: int

record FuzzyWeights =
  out_centers :: "real \<times> real \<times> real"

definition DEFAULT_OUT :: "(real \<Rightarrow> real) \<Rightarrow> FuzzyWeights" where
  "DEFAULT_OUT rnd = \<lparr>out_centers = (rnd (2 / 10), rnd (5 / 10), rnd (85 / 100))\<rparr>"

text \<open>Sequencing of computations that may raise.\<close>

definition bind_e :: "error + 'a \<Rightarrow> ('a \<Rightarrow> error + 'b) \<Rightarrow> error + 'b" where
  "bind_e m f = (case m of Inl er \<Rightarrow> Inl er | Inr v \<Rightarrow> f v)"

text \<open>Python's \<^verbatim>\<open>min\<close> of three arguments.\<close>

definition min3 :: "real \<Rightarrow> real \<Rightarrow> real \<Rightarrow> real" where
  "min3 a b c = min (min a b) c"

text \<open>
  The first two parts of \<^verbatim>\<open>fuzzy_score\<close>: the 24 memberships, in source order,
  and the three rule banks. The result is \<open>(p, o, g)\<close>, the activations of
  Poor, Okay and Good.
\<close>

definition rule_strengths :: "(real \<Rightarrow> real) \<Rightarrow> RouteFeatures \<Rightarrow> error + real \<times> real \<times> real" where
  "rule_strengths rnd feat =
     bind_e (tri rnd (pip_gain feat) (- 2) 0 4) (\<lambda>pip_s.
     bind_e (tri rnd (pip_gain feat) 2 6 10) (\<lambda>pip_m.
     bind_e (tri rnd (pip_gain feat) 8 14 22) (\<lambda>pip_l.
     bind_e (trap rnd (real_of_int (hits feat)) (- rnd (5 / 10)) 0 0 (rnd (5 / 10))) (\<lambda>hit_z.
     bind_e (tri rnd (real_of_int (hits feat)) (rnd (5 / 10)) 1 (rnd (15 / 10))) (\<lambda>hit_1.
     bind_e (tri rnd (real_of_int (hits feat)) (rnd (15 / 10)) 2 (rnd (35 / 10))) (\<lambda>hit_mn.
     bind_e (tri rnd (real_of_int (blots_after feat)) (- rnd (5 / 10)) 0 2) (\<lambda>bl_l.
     bind_e (tri rnd (real_of_int (blots_after feat)) 1 3 5) (\<lambda>bl_m.
     bind_e (tri rnd (real_of_int (blots_after feat)) 4 7 12) (\<lambda>bl_h.
     bind_e (tri rnd (real_of_int (anchors_after feat)) (- rnd (5 / 10)) 0 (rnd (15 / 10))) (\<lambda>an_l.
     bind_e (tri rnd (real_of_int (anchors_after feat)) 1 2 (rnd (35 / 10))) (\<lambda>an_m.
     bind_e (tri rnd (real_of_int (anchors_after feat)) 3 4 6) (\<lambda>an_h.
     bind_e (trap rnd (real_of_int (my_bar_after feat)) (- rnd (5 / 10)) 0 0 (rnd (5 / 10))) (\<lambda>myb_z.
     bind_e (tri rnd (real_of_int (my_bar_after feat)) (rnd (5 / 10)) 1 (rnd (25 / 10))) (\<lambda>myb_s.
     bind_e (tri rnd (real_of_int (my_bar_after feat)) 2 3 6) (\<lambda>myb_mn.
     bind_e (trap rnd (real_of_int (opp_bar_after feat)) (- rnd (5 / 10)) 0 0 (rnd (5 / 10))) (\<lambda>opb_z.
     bind_e (tri rnd (real_of_int (opp_bar_after feat)) (rnd (5 / 10)) 1 (rnd (25 / 10))) (\<lambda>opb_s.
     bind_e (tri rnd (real_of_int (opp_bar_after feat)) 2 3 6) (\<lambda>opb_mn.
     bind_e (tri rnd (home_progress_after feat) (rnd (10 / 100)) (rnd (20 / 100)) (rnd (35 / 100))) (\<lambda>hm_l.
     bind_e (tri rnd (home_progress_after feat) (rnd (30 / 100)) (rnd (50 / 100)) (rnd (70 / 100))) (\<lambda>hm_m.
     bind_e (tri rnd (home_progress_after feat) (rnd (65 / 100)) (rnd (85 / 100)) (rnd (101 / 100))) (\<lambda>hm_h.
     bind_e (tri rnd (real_of_int (borne_off_after feat)) (- rnd (5 / 10)) 0 3) (\<lambda>off_l.
     bind_e (tri rnd (real_of_int (borne_off_after feat)) 2 5 9) (\<lambda>off_m.
     bind_e (tri rnd (real_of_int (borne_off_after feat)) 8 11 (rnd (155 / 10))) (\<lambda>off_h.
       let good = max (max (max (max (max (max 0
                 (min3 pip_l bl_l an_h))
                 (min3 hit_1 bl_l pip_m))
                 (min hit_mn bl_l))
                 (min hm_h bl_l))
                 (min off_h bl_l))
                 (min opb_mn bl_l);
           okay = max (max (max (max (max 0
                 (min pip_m bl_m))
                 (min hit_1 bl_m))
                 (min an_m pip_s))
                 (min hm_m bl_m))
                 (min off_m bl_m);
           poor = max (max (max (max 0
                 (min bl_h pip_s))
                 (min myb_s pip_s))
                 (min myb_mn 1))
                 (min hit_z bl_h)
       in Inr (poor, okay, good)))))))))))))))))))))))))"

text \<open>
  The last part of \<^verbatim>\<open>fuzzy_score\<close>: the weighted average over the centres,
  \<^verbatim>\<open>num = p * cP + o * cO + g * cG\<close> and \<^verbatim>\<open>den = (p + o + g) + 1e-9\<close>, each
  product and each sum rounded, from left to right.
\<close>

definition fuzzy_score :: "(real \<Rightarrow> real) \<Rightarrow> RouteFeatures \<Rightarrow> FuzzyWeights \<Rightarrow> error + real" where
  "fuzzy_score rnd feat oc =
     bind_e (rule_strengths rnd feat) (\<lambda>(poor, okay, good).
       case out_centers oc of
         (cP, cO, cG) \<Rightarrow>
           fdiv rnd (rnd (rnd (rnd (poor * cP) + rnd (okay * cO)) + rnd (good * cG)))
                    (rnd (rnd (rnd (poor + okay) + good) + eps9 rnd)))"


text \<open>
  A route after which three own checkers are on the bar and seven blots stand
  on the board, with nothing else gained.
\<close>

definition poor_only :: RouteFeatures where
  "poor_only = \<lparr>pip_gain = 0, hits = 0, blots_after = 7, anchors_after = 0, my_bar_after = 3,
      opp_bar_after = 0, home_progress_after = 0, borne_off_after = 0\<rparr>"

section \<open>Moves on boards that satisfy the invariant\<close>

lemma Player_neq [simp]: "(a \<noteq> BLACK) = (a = WHITE)" "(a \<noteq> WHITE) = (a = BLACK)"
  by (cases a; simp)+

lemma py_index_28: "0 \<le> i \<Longrightarrow> i \<le> 27 \<Longrightarrow> py_index 28 i = Some (nat i)"
  by (simp add: py_index_def)

lemma point_at_inv:
  "length (points b) = 28 \<Longrightarrow> 0 \<le> i \<Longrightarrow> i \<le> 27 \<Longrightarrow> point_at b i = Inr (points b ! nat i)"
  by (simp add: point_at_def py_index_28)

lemma update_point_inv:
  "length (points b) = 28 \<Longrightarrow> 0 \<le> i \<Longrightarrow> i \<le> 27 \<Longrightarrow>
   update_point b i m = (case m (points b ! nat i) of Inl e \<Rightarrow> Inl e
      | Inr pt \<Rightarrow> Inr (b\<lparr>points := (points b)[nat i := pt]\<rparr>))"
  by (simp add: update_point_def py_index_28)

lemma sum_list_map_update:
  fixes f :: "'a \<Rightarrow> int"
  shows "k < length xs \<Longrightarrow> sum_list (map f (xs[k := v])) = sum_list (map f xs) - f (xs ! k) + f v"
proof (induction xs arbitrary: k)
  case Nil then show ?case by simp
next
  case (Cons x xs) then show ?case by (cases k) auto
qed

lemma total_update:
  "k < length (points b) \<Longrightarrow>
   total (b\<lparr>points := (points b)[k := pt]\<rparr>) q = total b q - contrib q (points b ! k) + contrib q pt"
  by (simp add: total_def sum_list_map_update)

lemma Point_remove_1: "checkers pt \<ge> 1 \<Longrightarrow> Point_remove pt 1 = Inr (take1 pt)"
  by (simp add: Point_remove_def take1_def Let_def)

lemma Point_remove_1_err: "checkers pt < 1 \<Longrightarrow> Point_remove pt 1 = Inl ValueError"
  by (simp add: Point_remove_def)

lemma Point_add_1: "owner pt \<noteq> Some (opponent p) \<Longrightarrow> Point_add pt p 1 = Inr (give1 p pt)"
  by (cases p; cases "owner pt"; simp add: Point_add_def give1_def)

lemma take1_inv: "point_inv pt \<Longrightarrow> checkers pt \<ge> 1 \<Longrightarrow> point_inv (take1 pt)"
  by (auto simp: point_inv_def take1_def)

lemma give1_inv: "point_inv pt \<Longrightarrow> point_inv (give1 p pt)"
  by (auto simp: point_inv_def give1_def)

lemma contrib_take1:
  "point_inv pt \<Longrightarrow> checkers pt \<ge> 1 \<Longrightarrow>
   contrib q (take1 pt) = contrib q pt - (if owner pt = Some q then 1 else 0)"
  by (auto simp: point_inv_def take1_def contrib_def)

lemma contrib_give1:
  "point_inv pt \<Longrightarrow> owner pt \<noteq> Some (opponent p) \<Longrightarrow>
   contrib q (give1 p pt) = contrib q pt + (if q = p then 1 else 0)"
  by (cases p; cases q; cases "owner pt"; auto simp: point_inv_def give1_def contrib_def)

lemma board_inv_nth:
  "board_inv b \<Longrightarrow> 0 \<le> i \<Longrightarrow> i \<le> 27 \<Longrightarrow> point_inv (points b ! nat i)"
  by (simp add: board_inv_def list_all_length)

lemma update_remove1:
  "length (points b) = 28 \<Longrightarrow> 0 \<le> i \<Longrightarrow> i \<le> 27 \<Longrightarrow>
   update_point b i (\<lambda>pt. Point_remove pt 1) =
     (if checkers (points b ! nat i) < 1 then Inl ValueError else Inr (sub1 b i))"
  by (simp add: update_point_inv Point_remove_1 Point_remove_1_err sub1_def)

lemma update_add1:
  "length (points b) = 28 \<Longrightarrow> 0 \<le> i \<Longrightarrow> i \<le> 27 \<Longrightarrow>
   owner (points b ! nat i) \<noteq> Some (opponent p) \<Longrightarrow>
   update_point b i (\<lambda>pt. Point_add pt p 1) = Inr (add1 b p i)"
  by (simp add: update_point_inv Point_add_1 add1_def)

lemma length_sub1 [simp]: "length (points (sub1 b i)) = length (points b)"
  by (simp add: sub1_def)

lemma length_add1 [simp]: "length (points (add1 b p i)) = length (points b)"
  by (simp add: add1_def)

lemma nth_sub1:
  "j < length (points b) \<Longrightarrow>
   points (sub1 b i) ! j = (if j = nat i then take1 (points b ! j) else points b ! j)"
  by (simp add: sub1_def nth_list_update)

lemma nth_add1:
  "j < length (points b) \<Longrightarrow>
   points (add1 b p i) ! j = (if j = nat i then give1 p (points b ! j) else points b ! j)"
  by (simp add: add1_def nth_list_update)

lemma owner_take1: "owner (take1 pt) = (if checkers pt = 1 then None else owner pt)"
  by (simp add: take1_def)

lemma checkers_take1: "checkers (take1 pt) = (if checkers pt = 1 then 0 else checkers pt - 1)"
  by (simp add: take1_def)

lemma owner_give1: "owner pt \<noteq> Some (opponent p) \<Longrightarrow> owner (give1 p pt) = Some p"
  by (cases p; cases "owner pt"; simp add: give1_def)

lemma checkers_give1:
  "point_inv pt \<Longrightarrow> checkers (give1 p pt) = checkers pt + 1"
  by (auto simp: give1_def point_inv_def)

lemma list_all_update: "list_all P xs \<Longrightarrow> P v \<Longrightarrow> list_all P (xs[k := v])"
  unfolding list_all_iff using set_update_subset_insert [of xs k v] by auto

lemma board_inv_sub1:
  assumes "board_inv b" "0 \<le> i" "i \<le> 27" "checkers (points b ! nat i) \<ge> 1"
  shows "board_inv (sub1 b i)"
proof -
  have pi: "point_inv (take1 (points b ! nat i))"
    using assms by (simp add: take1_inv board_inv_nth)
  have len: "length (points b) = 28" using assms(1) by (simp add: board_inv_def)
  have "list_all point_inv (points (sub1 b i))"
    using assms(1) pi by (simp add: sub1_def board_inv_def list_all_update)
  moreover have "slot_owner_ok (sub1 b i) q" for q
    using assms(1) len
    by (cases q; simp add: slot_owner_ok_def board_inv_def nth_sub1 owner_take1
        bar_index_def off_index_def)
  ultimately show ?thesis using len by (simp add: board_inv_def)
qed

lemma total_sub1:
  assumes "board_inv b" "0 \<le> i" "i \<le> 27" "checkers (points b ! nat i) \<ge> 1"
  shows "total (sub1 b i) q = total b q - (if owner (points b ! nat i) = Some q then 1 else 0)"
proof -
  have len: "length (points b) = 28" using assms(1) by (simp add: board_inv_def)
  have "nat i < length (points b)" using assms len by simp
  then show ?thesis
    using assms by (simp add: sub1_def total_update contrib_take1 board_inv_nth)
qed

lemma board_inv_add1:
  assumes "board_inv b" "may_hold p i" "owner (points b ! nat i) \<noteq> Some (opponent p)"
  shows "board_inv (add1 b p i)"
proof -
  have len: "length (points b) = 28" using assms(1) by (simp add: board_inv_def)
  have r: "0 \<le> i" "i \<le> 27" using assms(2) by (simp_all add: may_hold_def)
  have pi: "point_inv (give1 p (points b ! nat i))"
    using assms r by (simp add: give1_inv board_inv_nth)
  have "list_all point_inv (points (add1 b p i))"
    using assms(1) pi by (simp add: add1_def board_inv_def list_all_update)
  moreover have "slot_owner_ok (add1 b p i) q" for q
    using assms len r
    by (cases q; cases p; simp add: slot_owner_ok_def board_inv_def nth_add1 owner_give1
        bar_index_def off_index_def may_hold_def; linarith?)
  ultimately show ?thesis using len by (simp add: board_inv_def)
qed

lemma total_add1:
  assumes "board_inv b" "0 \<le> i" "i \<le> 27" "owner (points b ! nat i) \<noteq> Some (opponent p)"
  shows "total (add1 b p i) q = total b q + (if q = p then 1 else 0)"
proof -
  have len: "length (points b) = 28" using assms(1) by (simp add: board_inv_def)
  have "nat i < length (points b)" using assms len by simp
  then show ?thesis
    using assms by (simp add: add1_def total_update contrib_give1 board_inv_nth)
qed

lemma is_blocked_for_inv:
  "length (points b) = 28 \<Longrightarrow> 1 \<le> e \<Longrightarrow> e \<le> 24 \<Longrightarrow>
   is_blocked_for b e p =
     Inr (owner (points b ! nat e) = Some (opponent p) \<and> checkers (points b ! nat e) \<ge> 2)"
  by (simp add: is_blocked_for_def point_at_inv)

lemma can_hit_inv:
  "length (points b) = 28 \<Longrightarrow> 0 \<le> e \<Longrightarrow> e \<le> 27 \<Longrightarrow>
   can_hit b e p =
     Inr (1 \<le> e \<and> e \<le> 24 \<and> owner (points b ! nat e) = Some (opponent p)
          \<and> checkers (points b ! nat e) = 1)"
  by (auto simp: can_hit_def point_at_inv)

lemma enter_loop_mem:
  "enter_loop b p ds = Inr ts \<Longrightarrow> (d, e) \<in> set ts \<Longrightarrow>
   d \<in> set ds \<and> 1 \<le> e \<and> e \<le> 24 \<and> is_blocked_for b e p = Inr False"
proof (induction ds arbitrary: ts)
  case Nil
  then show ?case by simp
next
  case (Cons x xs)
  then show ?case
    by (auto simp: Let_def split: if_splits sum.splits)
qed

lemma point_loop_mem:
  "point_loop b p s ds = Inr ts \<Longrightarrow> (d, e) \<in> set ts \<Longrightarrow>
   d \<in> set ds \<and> ((e = off_index p \<and> all_in_home b p)
      \<or> (1 \<le> e \<and> e \<le> 24 \<and> is_blocked_for b e p = Inr False))"
proof (induction ds arbitrary: ts)
  case Nil
  then show ?case by simp
next
  case (Cons x xs)
  then show ?case
    by (auto simp: Let_def split: if_splits sum.splits)
qed

lemma legal_single_targets_mem:
  assumes "legal_single_targets b p s ds = Inr ts" and "(d, e) \<in> set ts"
  shows "d \<in> set ds \<and> (from_bar b p s e \<or> from_point b p s e)"
proof (cases "s = bar_index p")
  case True
  with assms have "enter_loop b p ds = Inr ts"
    by (auto simp: legal_single_targets_def split: sum.splits if_splits)
  from enter_loop_mem [OF this assms(2)] True show ?thesis
    by (simp add: from_bar_def)
next
  case False
  with assms obtain pt where pt: "point_at b s = Inr pt" "owner pt = Some p" "checkers pt > 0"
      "1 \<le> s" "s \<le> 24" and lp: "point_loop b p s ds = Inr ts"
    by (auto simp: legal_single_targets_def split: sum.splits if_splits)
  from point_loop_mem [OF lp assms(2)] pt show ?thesis
    by (auto simp: from_point_def)
qed

lemma board_inv_length: "board_inv b \<Longrightarrow> length (points b) = 28"
  by (simp add: board_inv_def)

lemma board_inv_slot: "board_inv b \<Longrightarrow> slot_owner_ok b q"
  by (cases q) (simp_all add: board_inv_def)

lemma off_index_range: "0 \<le> off_index q" "off_index q \<le> 27" "\<not> off_index q \<le> 24"
  by (simp_all add: off_index_def)

lemma bar_index_range: "0 \<le> bar_index q" "bar_index q \<le> 27"
  by (simp_all add: bar_index_def)

lemma hit_step_legal:
  assumes inv: "board_inv b" and e: "1 \<le> e" "e \<le> 24"
    and nb: "\<not> (owner (points b ! nat e) = Some (opponent p) \<and> checkers (points b ! nat e) \<ge> 2)"
  shows "\<exists>hb. hit_step b p e = (None, hb) \<and> board_inv hb \<and> (\<forall>q. total hb q = total b q)
           \<and> owner (points hb ! nat e) \<noteq> Some (opponent p)
           \<and> (\<forall>q. points hb ! nat (off_index q) = points b ! nat (off_index q))"
proof (cases "owner (points b ! nat e) = Some (opponent p)")
  case False
  have len: "length (points b) = 28" using inv by (rule board_inv_length)
  have "hit_step b p e = (None, b)"
    using False e len by (simp add: hit_step_def can_hit_inv)
  with False inv show ?thesis by simp
next
  case True
  have len: "length (points b) = 28" using inv by (rule board_inv_length)
  have pi: "point_inv (points b ! nat e)" using inv e by (simp add: board_inv_nth)
  with True nb have c1: "checkers (points b ! nat e) = 1"
    by (auto simp: point_inv_def)
  let ?o = "opponent p"
  let ?b1 = "sub1 b e"
  let ?b2 = "add1 ?b1 ?o (bar_index ?o)"
  have inv1: "board_inv ?b1" using inv e c1 by (simp add: board_inv_sub1)
  have ok1: "owner (points ?b1 ! nat (bar_index ?o)) \<noteq> Some (opponent ?o)"
    using board_inv_slot [OF inv1, of ?o] by (simp add: slot_owner_ok_def)
  have mh: "may_hold ?o (bar_index ?o)"
    by (cases p) (simp_all add: may_hold_def bar_index_def off_index_def)
  have inv2: "board_inv ?b2" using inv1 mh ok1 by (rule board_inv_add1)
  have hs: "hit_step b p e = (None, ?b2)"
    using True c1 e len ok1
    by (simp add: hit_step_def can_hit_inv update_remove1 update_add1 bar_index_range
        del: opponent.simps)
  have t: "total ?b2 q = total b q" for q
    using total_add1 [OF inv1 bar_index_range ok1, of q]
      total_sub1 [OF inv, of e q] e c1 True by auto
  have ne: "nat e \<noteq> nat (bar_index ?o)" using e by (auto simp: bar_index_def nat_eq_iff)
  have ow: "owner (points ?b2 ! nat e) \<noteq> Some ?o"
    using e len ne c1 by (simp add: nth_add1 nth_sub1 owner_take1 del: opponent.simps)
  have off: "points ?b2 ! nat (off_index q) = points b ! nat (off_index q)" for q
    using e len by (cases p; cases q; simp add: nth_add1 nth_sub1 off_index_def bar_index_def)
  show ?thesis using hs inv2 t ow off by blast
qed

lemma place_step_legal:
  assumes inv: "board_inv b" and e: "1 \<le> e" "e \<le> 24"
    and ow: "owner (points b ! nat e) \<noteq> Some (opponent p)"
  shows "place_step b p e = (None, add1 b p e) \<and> board_inv (add1 b p e)
           \<and> (\<forall>q. total (add1 b p e) q = total b q + (if q = p then 1 else 0))
           \<and> (\<forall>q. points (add1 b p e) ! nat (off_index q) = points b ! nat (off_index q))"
proof -
  have len: "length (points b) = 28" using inv by (rule board_inv_length)
  have cases: "owner (points b ! nat e) = None \<or> owner (points b ! nat e) = Some p"
    using ow by (cases p; cases "owner (points b ! nat e)"; simp)
  have ps: "place_step b p e = (None, add1 b p e)"
    using cases e len ow
    by (simp add: place_step_def point_at_inv update_add1 del: opponent.simps)
  have mh: "may_hold p e" using e by (cases p) (simp_all add: may_hold_def bar_index_def off_index_def)
  have inv': "board_inv (add1 b p e)" using inv mh ow by (rule board_inv_add1)
  have t: "total (add1 b p e) q = total b q + (if q = p then 1 else 0)" for q
    using total_add1 [OF inv _ _ ow, where q = q] e by simp
  have off: "points (add1 b p e) ! nat (off_index q) = points b ! nat (off_index q)" for q
    using e len by (cases q; simp add: nth_add1 off_index_def)
  show ?thesis using ps inv' t off by blast
qed

text \<open>The effect of a move that starts on a pocket holding a checker of the mover.\<close>

lemma apply_single_move_effect:
  assumes inv: "board_inv b" and s: "0 \<le> s" "s \<le> 27"
    and own: "owner (points b ! nat s) = Some p" and c: "checkers (points b ! nat s) \<ge> 1"
    and tgt: "(e = off_index p \<and> s \<noteq> off_index p) \<or> (1 \<le> e \<and> e \<le> 24 \<and> is_blocked_for b e p = Inr False)"
  shows "\<exists>b'. apply_single_move b p s e = (None, b') \<and> board_inv b'
           \<and> (\<forall>q. total b' q = total b q)
           \<and> (\<forall>q. s \<noteq> off_index q \<longrightarrow>
                 checkers (points b' ! nat (off_index q)) \<ge> checkers (points b ! nat (off_index q)))"
proof -
  have len: "length (points b) = 28" using inv by (rule board_inv_length)
  let ?b1 = "sub1 b s"
  have inv1: "board_inv ?b1" using inv s c by (rule board_inv_sub1)
  have len1: "length (points ?b1) = 28" using len by simp
  have t1: "total ?b1 q = total b q - (if q = p then 1 else 0)" for q
    using total_sub1 [OF inv s c, of q] own by auto
  have rm: "update_point b s (\<lambda>pt. Point_remove pt 1) = Inr ?b1"
    using len s c by (simp add: update_remove1)
  have off1: "s \<noteq> off_index q \<Longrightarrow> points ?b1 ! nat (off_index q) = points b ! nat (off_index q)" for q
    using len s by (cases q; simp add: nth_sub1 off_index_def nat_eq_iff)
  show ?thesis
  proof (cases "e = off_index p")
    case True
    with tgt have sne: "s \<noteq> off_index p" by (auto simp: off_index_def)
    have ok: "owner (points ?b1 ! nat (off_index p)) \<noteq> Some (opponent p)"
      using board_inv_slot [OF inv1, of p] by (simp add: slot_owner_ok_def)
    let ?b2 = "add1 ?b1 p (off_index p)"
    have mh: "may_hold p (off_index p)"
      by (cases p) (simp_all add: may_hold_def bar_index_def off_index_def)
    have inv2: "board_inv ?b2" using inv1 mh ok by (rule board_inv_add1)
    have ap: "apply_single_move b p s e = (None, ?b2)"
      using True rm ok len1
      by (simp add: apply_single_move_def update_add1 off_index_range del: opponent.simps)
    have t2: "total ?b2 q = total b q" for q
      using total_add1 [OF inv1 off_index_range(1,2) ok, of q] t1 [of q] by simp
    have pin: "point_inv (points ?b1 ! nat (off_index p))"
      using inv1 by (simp add: board_inv_nth off_index_range)
    have off2: "s \<noteq> off_index q \<Longrightarrow>
        checkers (points ?b2 ! nat (off_index q)) \<ge> checkers (points b ! nat (off_index q))" for q
      using off1 [of q] pin len
      by (cases "q = p") (auto simp: nth_add1 checkers_give1 off_index_def)
    show ?thesis using ap inv2 t2 off2 by blast
  next
    case False
    with tgt have e: "1 \<le> e" "e \<le> 24" and ub: "is_blocked_for b e p = Inr False" by auto
    have nb: "\<not> (owner (points b ! nat e) = Some (opponent p) \<and> checkers (points b ! nat e) \<ge> 2)"
      using ub e len by (simp add: is_blocked_for_inv)
    have nb1: "\<not> (owner (points ?b1 ! nat e) = Some (opponent p) \<and> checkers (points ?b1 ! nat e) \<ge> 2)"
    proof (cases "nat e = nat s")
      case True
      then show ?thesis using own len e
        by (cases p) (auto simp: nth_sub1 owner_take1)
    next
      case False
      then show ?thesis using nb len e by (simp add: nth_sub1)
    qed
    from hit_step_legal [OF inv1 e nb1]
    obtain hb where hb: "hit_step ?b1 p e = (None, hb)" "board_inv hb"
        "\<forall>q. total hb q = total ?b1 q" "owner (points hb ! nat e) \<noteq> Some (opponent p)"
        "\<forall>q. points hb ! nat (off_index q) = points ?b1 ! nat (off_index q)"
      by blast
    let ?b3 = "add1 hb p e"
    from place_step_legal [OF hb(2) e hb(4)]
    have pl: "place_step hb p e = (None, ?b3)" "board_inv ?b3"
        "\<forall>q. total ?b3 q = total hb q + (if q = p then 1 else 0)"
        "\<forall>q. points ?b3 ! nat (off_index q) = points hb ! nat (off_index q)"
      by blast+
    have ap: "apply_single_move b p s e = (None, ?b3)"
      using False rm hb(1) pl(1) by (simp add: apply_single_move_def)
    have t3: "total ?b3 q = total b q" for q
      using pl(3) hb(3) t1 [of q] by simp
    have off3: "s \<noteq> off_index q \<Longrightarrow>
        checkers (points ?b3 ! nat (off_index q)) \<ge> checkers (points b ! nat (off_index q))" for q
      using pl(4) hb(5) off1 [of q] by simp
    show ?thesis using ap pl(2) t3 off3 by blast
  qed
qed

text \<open>
  A move returned by \<^verbatim>\<open>legal_single_targets\<close> on a board satisfying the
  data-model invariant: it either fails at once on an empty bar, leaving the
  board as it was, or succeeds and keeps the invariant, both totals and never
  lowers an off-tray count.
\<close>

lemma apply_legal_move:
  assumes inv: "board_inv b"
    and lg: "legal_single_targets b p s ds = Inr ts" and mem: "(d, e) \<in> set ts"
    and ap: "apply_single_move b p s e = (r, b')"
  shows "board_inv b' \<and> (\<forall>q. total b' q = total b q)
         \<and> (\<forall>q. checkers (points b' ! nat (off_index q)) \<ge> checkers (points b ! nat (off_index q)))
         \<and> (r \<noteq> None \<longrightarrow> r = Some ValueError \<and> b' = b \<and> s = bar_index p \<and> count_on_bar b p = Inr 0)"
proof -
  have len: "length (points b) = 28" using inv by (rule board_inv_length)
  from legal_single_targets_mem [OF lg mem]
  have fm: "from_bar b p s e \<or> from_point b p s e" by simp
  have srange: "0 \<le> s" "s \<le> 27"
    using fm by (auto simp: from_bar_def from_point_def bar_index_def)
  have sno: "s \<noteq> off_index q" for q
    using fm by (cases q; cases p; auto simp: from_bar_def from_point_def bar_index_def off_index_def)
  have pin: "point_inv (points b ! nat s)" using inv srange by (rule board_inv_nth)
  show ?thesis
  proof (cases "checkers (points b ! nat s) \<ge> 1")
    case False
    then have z: "checkers (points b ! nat s) = 0" using pin unfolding point_inv_def by linarith
    have fb: "from_bar b p s e"
      using fm z len srange by (auto simp: from_point_def point_at_inv)
    then have sb: "s = bar_index p" by (simp add: from_bar_def)
    have "apply_single_move b p s e = (Some ValueError, b)"
      using False len srange by (simp add: apply_single_move_def update_remove1)
    with ap have "r = Some ValueError" "b' = b" by simp_all
    moreover have "count_on_bar b p = Inr 0"
      using z sb len srange by (simp add: count_on_bar_def point_at_inv)
    ultimately show ?thesis using inv sb by simp
  next
    case True
    have own: "owner (points b ! nat s) = Some p"
    proof (cases "s = bar_index p")
      case True
      have "owner (points b ! nat s) \<noteq> Some (opponent p)"
        using board_inv_slot [OF inv, of p] True by (simp add: slot_owner_ok_def)
      moreover have "owner (points b ! nat s) \<noteq> None"
        using pin \<open>checkers (points b ! nat s) \<ge> 1\<close> by (auto simp: point_inv_def)
      ultimately show ?thesis by (cases p; cases "owner (points b ! nat s)"; simp)
    next
      case False
      then show ?thesis using fm len srange
        by (auto simp: from_bar_def from_point_def point_at_inv)
    qed
    have tgt: "(e = off_index p \<and> s \<noteq> off_index p)
        \<or> (1 \<le> e \<and> e \<le> 24 \<and> is_blocked_for b e p = Inr False)"
      using fm sno [of p] by (auto simp: from_bar_def from_point_def)
    from apply_single_move_effect [OF inv srange own True tgt] ap sno
    show ?thesis by auto
  qed
qed

lemma standard_setup_board: "standard_setup = Inr standard_board"
  by (simp add: standard_setup_def put_def Board0_def update_point_def py_index_def
      Point_add_def standard_board_def mk_def Point0_def eval_nat_numeral)

lemma standard_board_inv: "board_inv standard_board"
  by (simp add: board_inv_def standard_board_def slot_owner_ok_def point_inv_def mk_def
      Point0_def bar_index_def off_index_def)

lemma standard_board_total: "total standard_board q = 15"
  by (cases q) (simp_all add: total_def contrib_def standard_board_def mk_def Point0_def)

lemma reachable_inv:
  "reachable b \<Longrightarrow> board_inv b \<and> total b WHITE = 15 \<and> total b BLACK = 15"
proof (induction rule: reachable.induct)
  case (reach_setup b)
  then show ?case
    by (simp add: standard_setup_board standard_board_inv standard_board_total)
next
  case (reach_move b p s ds ts d e r b')
  from apply_legal_move [OF _ reach_move.hyps(2,3,4)] reach_move.IH
  show ?case by simp
qed

lemma nth_le_sum_list:
  fixes xs :: "int list"
  shows "\<forall>x\<in>set xs. 0 \<le> x \<Longrightarrow> k < length xs \<Longrightarrow> xs ! k \<le> sum_list xs"
proof (induction xs arbitrary: k)
  case Nil
  then show ?case by simp
next
  case (Cons x xs)
  show ?case
  proof (cases k)
    case 0
    have "0 \<le> sum_list xs" using Cons.prems(1) by (simp add: sum_list_nonneg)
    with 0 show ?thesis by simp
  next
    case (Suc j)
    with Cons have "xs ! j \<le> sum_list xs" by simp
    moreover have "0 \<le> x" using Cons.prems(1) by simp
    ultimately show ?thesis using Suc by simp
  qed
qed

lemma contrib_nonneg: "point_inv pt \<Longrightarrow> 0 \<le> contrib q pt"
  by (simp add: contrib_def point_inv_def)

lemma off_le_total:
  assumes inv: "board_inv b"
  shows "checkers (points b ! nat (off_index p)) \<le> total b p"
proof -
  have len: "length (points b) = 28" using inv by (rule board_inv_length)
  let ?k = "nat (off_index p)"
  have k: "?k < length (points b)" using len by (simp add: off_index_def)
  have pin: "point_inv (points b ! ?k)" using inv by (simp add: board_inv_nth off_index_range)
  have "owner (points b ! ?k) \<noteq> Some (opponent p)"
    using board_inv_slot [OF inv, of p] by (simp add: slot_owner_ok_def)
  then have "owner (points b ! ?k) = None \<or> owner (points b ! ?k) = Some p"
    by (cases p; cases "owner (points b ! ?k)"; simp)
  then have eq: "checkers (points b ! ?k) = contrib p (points b ! ?k)"
    using pin by (auto simp: contrib_def point_inv_def)
  have "\<forall>x\<in>set (map (contrib p) (points b)). 0 \<le> x"
    using inv by (auto simp: board_inv_def list_all_iff contrib_nonneg)
  from nth_le_sum_list [OF this, of ?k] k
  have "contrib p (points b ! ?k) \<le> total b p" by (simp add: total_def)
  with eq show ?thesis by simp
qed

lemma count_off_inv:
  "board_inv b \<Longrightarrow> count_off b p = Inr (checkers (points b ! nat (off_index p)))"
  by (simp add: count_off_def point_at_inv board_inv_length off_index_range)

lemma legal_opening_24: "legal_single_targets standard_board WHITE 24 [3] = Inr [(3, 21)]"
  by (simp add: legal_single_targets_def count_on_bar_def point_at_def py_index_def
      bar_index_def dir_def is_blocked_for_def standard_board_def mk_def Point0_def)

lemma apply_opening_24_21: "apply_single_move standard_board WHITE 24 21 = (None, opening_24_21)"
  by (simp add: apply_single_move_def hit_step_def place_step_def update_point_def point_at_def
      py_index_def Point_remove_def Point_add_def can_hit_def off_index_def bar_index_def
      standard_board_def opening_24_21_def mk_def Point0_def)

lemma apply_bar_24: "apply_single_move bar_position WHITE 0 24 = (None, bar_entered_24)"
  by (simp add: apply_single_move_def hit_step_def place_step_def update_point_def point_at_def
      py_index_def Point_remove_def Point_add_def can_hit_def off_index_def bar_index_def
      bar_position_def bar_entered_24_def mk_def Point0_def)

lemmas legal_eval = legal_single_targets_def count_on_bar_def point_at_def py_index_def
  bar_index_def dir_def is_blocked_for_def mk_def Point0_def

lemmas apply_eval = apply_single_move_def hit_step_def place_step_def update_point_def point_at_def
  py_index_def Point_remove_def Point_add_def can_hit_def off_index_def bar_index_def mk_def
  Point0_def

lemma reachable_hit_position: "reachable hit_position"
proof -
  have r0: "reachable standard_board"
    by (rule reachable.reach_setup [OF standard_setup_board])
  have l1: "legal_single_targets standard_board BLACK 12 [2] = Inr [(2, 14)]"
    by (simp add: legal_eval standard_board_def)
  have a1: "apply_single_move standard_board BLACK 12 14 = (None, after_12_14)"
    by (simp add: apply_eval standard_board_def after_12_14_def)
  have r1: "reachable after_12_14"
    by (rule reachable.reach_move [OF r0 l1 _ a1]) simp
  have l2: "legal_single_targets after_12_14 WHITE 24 [6] = Inr [(6, 18)]"
    by (simp add: legal_eval after_12_14_def)
  have a2: "apply_single_move after_12_14 WHITE 24 18 = (None, after_24_18)"
    by (simp add: apply_eval after_12_14_def after_24_18_def)
  have r2: "reachable after_24_18"
    by (rule reachable.reach_move [OF r1 l2 _ a2]) simp
  have l3: "legal_single_targets after_24_18 WHITE 18 [4] = Inr [(4, 14)]"
    by (simp add: legal_eval after_24_18_def)
  have a3: "apply_single_move after_24_18 WHITE 18 14 = (None, hit_position)"
    by (simp add: apply_eval after_24_18_def hit_position_def)
  show ?thesis
    by (rule reachable.reach_move [OF r2 l3 _ a3]) simp
qed

lemma apply_moves_boards:
  "fst (apply_moves en ms) = fst (apply_boards (board en) (turn en) ms)
   \<and> board (snd (apply_moves en ms)) = snd (apply_boards (board en) (turn en) ms)
   \<and> turn (snd (apply_moves en ms)) = turn en
   \<and> dice (snd (apply_moves en ms))
       = fold remove1 (map die (applied (board en) (turn en) ms)) (dice en)"
proof (induction ms arbitrary: en)
  case Nil
  then show ?case by simp
next
  case (Cons m ms)
  obtain r b' where ap: "apply_single_move (board en) (turn en) (start m) (end_idx m) = (r, b')"
    by (cases "apply_single_move (board en) (turn en) (start m) (end_idx m)")
  show ?case
  proof (cases r)
    case (Some er)
    with ap show ?thesis by (simp add: apply_route_step_def)
  next
    case None
    let ?en' = "en\<lparr>board := b', dice := remove1 (die m) (dice en)\<rparr>"
    have step: "apply_route_step en m = (None, ?en')"
      using ap None
      by (cases "die m \<in> set (dice en)")
        (simp_all add: apply_route_step_def list_remove_def remove1_idem)
    from Cons.IH [of ?en'] step ap None show ?thesis by simp
  qed
qed

lemma fold_remove1_absent:
  "\<forall>d \<in> set ds. d \<notin> set xs \<Longrightarrow> fold remove1 ds xs = xs"
  by (induction ds) (simp_all add: remove1_idem)

lemma applied_subset: "set (applied b p ms) \<subseteq> set ms"
  by (induction ms arbitrary: b) (auto split: prod.splits option.splits)

lemma apply_bar_24_7: "apply_single_move bar_entered_24 WHITE 10 7 = (None, bar_played_24_7)"
  by (simp add: apply_single_move_def hit_step_def place_step_def update_point_def point_at_def
      py_index_def Point_remove_def Point_add_def can_hit_def off_index_def bar_index_def
      bar_entered_24_def bar_played_24_7_def mk_def Point0_def)

lemma reachable_run_moves:
  "reachable b \<Longrightarrow> run_moves b ms = Some b' \<Longrightarrow> reachable b'"
proof (induction ms arbitrary: b)
  case Nil
  then show ?case by simp
next
  case (Cons m ms)
  obtain p s e d where m: "m = (p, s, e, d)" by (cases m)
  from Cons.prems(2) m obtain ts b1 where
    ts: "legal_single_targets b p s [d] = Inr ts" "(d, e) \<in> set ts"
    and ap: "apply_single_move b p s e = (None, b1)" and rest: "run_moves b1 ms = Some b'"
    by (auto split: sum.splits if_splits prod.splits option.splits)
  from reachable.reach_move [OF Cons.prems(1) ts ap] have "reachable b1" .
  from Cons.IH [OF this rest] show ?case .
qed

lemma run_white_home: "run_moves standard_board white_home_run = Some almost_won"
  by code_simp

lemma reachable_almost_won: "reachable almost_won"
  using reachable_run_moves [OF reachable.reach_setup [OF standard_setup_board] run_white_home] .

lemma legal_last_off: "legal_single_targets almost_won WHITE 6 [6] = Inr [(6, 25)]"
  by code_simp

lemma apply_last_off: "apply_single_move almost_won WHITE 6 25 = (None, won_position)"
  by code_simp

lemma has_won_slot:
  assumes inv: "board_inv (board en)" and t: "total (board en) p = 15"
  shows "has_won en p = Inr (checkers (points (board en) ! nat (off_index p)) = 15)"
proof -
  have "checkers (points (board en) ! nat (off_index p)) \<le> 15"
    using off_le_total [OF inv, of p] t by simp
  then show ?thesis using count_off_inv [OF inv, of p] by (auto simp: has_won_def)
qed

declare backtrack.simps [simp del] starts_loop.simps [simp del] moves_loop.simps [simp del]

lemma cands_loop_mem:
  "cands_loop b p s ds = Inr cs \<Longrightarrow> (d, e) \<in> set cs \<Longrightarrow>
   d \<in> set ds \<and> (\<exists>ts. legal_single_targets b p s [d] = Inr ts \<and> (d, e) \<in> set ts)"
proof (induction ds arbitrary: cs)
  case Nil
  then show ?case by simp
next
  case (Cons x xs)
  from Cons.prems obtain ts cs' where ts: "legal_single_targets b p s [x] = Inr ts"
    and cs': "cands_loop b p s xs = Inr cs'" and cs: "cs = ts @ cs'"
    by (auto split: sum.splits)
  show ?case
  proof (cases "(d, e) \<in> set ts")
    case True
    with legal_single_targets_mem [OF ts True] ts show ?thesis by auto
  next
    case False
    with Cons.prems(2) cs have "(d, e) \<in> set cs'" by simp
    from Cons.IH [OF cs' this] show ?thesis by auto
  qed
qed

lemma cands_loop_empty:
  "cands_loop b p s ds = Inr [] \<Longrightarrow> list_all (\<lambda>d. legal_single_targets b p s [d] = Inr []) ds"
  by (induction ds) (auto split: sum.splits)

lemma finished_step:
  assumes lg: "legal_single_targets b p s [d] = Inr ts" "(d, e) \<in> set ts" "d \<in> set rem"
    and ap: "apply_single_move b p s e = (None, b2)"
    and fin: "finished b2 p (remove1 d rem) (acc @ [\<lparr>start = s, end_idx = e, die = d\<rparr>]) r"
  shows "finished b p rem acc r"
proof -
  let ?m = "\<lparr>start = s, end_idx = e, die = d\<rparr>"
  from fin obtain ms b' rem' where ms: "moves r = (acc @ [?m]) @ ms"
    "play b2 p (remove1 d rem) ms = Some (b', rem')"
    "length ms + length rem' = length (remove1 d rem)" "rem' = [] \<or> no_move b' p rem'"
    unfolding finished_def by blast
  have "play b p rem (?m # ms) = Some (b', rem')"
    using lg ap ms(2) by simp
  moreover have "length (?m # ms) + length rem' = length rem"
    using ms(3) lg(3) by (simp add: length_remove1) (metis length_pos_if_in_set Suc_pred)
  moreover have "moves r = acc @ (?m # ms)" using ms(1) by simp
  ultimately show ?thesis using ms(4) unfolding finished_def by blast
qed

lemma backtrack_finished:
  "\<forall>rs. backtrack p b rem acc = Inr rs \<longrightarrow> (\<forall>r \<in> set rs. finished b p rem acc r)"
  "\<forall>st'. starts_loop p b rem acc ss st = Inr st' \<longrightarrow> fresh_ok st \<longrightarrow>
      fresh_ok st'
      \<and> (\<forall>r \<in> set (snd (snd st')). r \<in> set (snd (snd st)) \<or> finished b p rem acc r)
      \<and> (\<not> fst st' \<longrightarrow> \<not> fst st \<and> (\<forall>s \<in> set ss. cands_loop b p s rem = Inr []))"
  "\<forall>st'. moves_loop p b rem acc s cs st = Inr st' \<longrightarrow> fresh_ok st \<longrightarrow>
      (\<forall>(d, e) \<in> set cs. d \<in> set rem \<and> (\<exists>ts. legal_single_targets b p s [d] = Inr ts \<and> (d, e) \<in> set ts)) \<longrightarrow>
      fresh_ok st'
      \<and> (\<forall>r \<in> set (snd (snd st')). r \<in> set (snd (snd st)) \<or> finished b p rem acc r)
      \<and> (\<not> fst st' \<longrightarrow> \<not> fst st \<and> cs = [])"
proof (induction p b rem acc and p b rem acc ss st and p b rem acc s cs st
       rule: backtrack_starts_loop_moves_loop.induct)
  case (1 p b rem acc)
  show ?case
  proof (intro allI impI)
    fix rs assume bt: "backtrack p b rem acc = Inr rs"
    show "\<forall>r \<in> set rs. finished b p rem acc r"
    proof (cases "rem = []")
      case True
      with bt have "rs = [\<lparr>moves = acc\<rparr>]" by (simp add: backtrack.simps)
      moreover have "finished b p rem acc \<lparr>moves = acc\<rparr>"
        using True by (simp add: finished_def)
      ultimately show ?thesis by simp
    next
      case False
      with bt obtain starts ua mask routes where
        st: "starts_of b p = Inr starts"
        and sl: "starts_loop p b rem acc starts (False, {}, []) = Inr (ua, mask, routes)"
        and rs: "rs = (if \<not> ua then routes @ [\<lparr>moves = acc\<rparr>] else routes)"
        by (auto simp: backtrack.simps [of p b rem acc] split: sum.splits prod.splits)
      have fo: "fresh_ok (False, {}, [])" by (simp add: fresh_ok_def)
      from "1.IH" [OF False st] sl fo
      have r1: "\<forall>r \<in> set routes. finished b p rem acc r"
        and r2: "\<not> ua \<longrightarrow> (\<forall>s \<in> set starts. cands_loop b p s rem = Inr [])"
        by auto
      have "finished b p rem acc \<lparr>moves = acc\<rparr>" if "\<not> ua"
      proof -
        from r2 that have "\<forall>s \<in> set starts. cands_loop b p s rem = Inr []" by simp
        then have "\<forall>s \<in> set starts. list_all (\<lambda>d. legal_single_targets b p s [d] = Inr []) rem"
          by (blast intro: cands_loop_empty)
        then have "no_move b p rem"
          using st by (simp add: no_move_def list_all_iff)
        then show ?thesis by (auto simp: finished_def)
      qed
      with r1 rs show ?thesis by auto
    qed
  qed
next
  case (2 p b rem acc st)
  show ?case by (simp add: starts_loop.simps)
next
  case (3 p b rem acc s ss st)
  show ?case
  proof (intro allI impI)
    fix st' assume sl: "starts_loop p b rem acc (s # ss) st = Inr st'" and fo: "fresh_ok st"
    from sl obtain cands st1 where cl: "cands_loop b p s rem = Inr cands"
      and ml: "moves_loop p b rem acc s cands st = Inr st1"
      and sl': "starts_loop p b rem acc ss st1 = Inr st'"
      by (auto simp: starts_loop.simps split: sum.splits)
    have legal: "\<forall>(d, e) \<in> set cands. d \<in> set rem
        \<and> (\<exists>ts. legal_single_targets b p s [d] = Inr ts \<and> (d, e) \<in> set ts)"
      using cands_loop_mem [OF cl] by auto
    from "3.IH"(1) [OF cl] ml fo legal
    have a: "fresh_ok st1"
      "\<forall>r \<in> set (snd (snd st1)). r \<in> set (snd (snd st)) \<or> finished b p rem acc r"
      "\<not> fst st1 \<longrightarrow> \<not> fst st \<and> cands = []"
      by blast+
    from "3.IH"(2) [OF cl ml] sl' a(1)
    have c: "fresh_ok st'"
      "\<forall>r \<in> set (snd (snd st')). r \<in> set (snd (snd st1)) \<or> finished b p rem acc r"
      "\<not> fst st' \<longrightarrow> \<not> fst st1 \<and> (\<forall>s \<in> set ss. cands_loop b p s rem = Inr [])"
      by blast+
    show "fresh_ok st'
      \<and> (\<forall>r \<in> set (snd (snd st')). r \<in> set (snd (snd st)) \<or> finished b p rem acc r)
      \<and> (\<not> fst st' \<longrightarrow> \<not> fst st \<and> (\<forall>s \<in> set (s # ss). cands_loop b p s rem = Inr []))"
      using a c cl by auto
  qed
next
  case (4 p b rem acc s st)
  show ?case by (simp add: moves_loop.simps)
next
  case (5 p b rem acc s d e cs used_any used_mask routes)
  let ?st = "(used_any, used_mask, routes)"
  let ?key = "(s, e, d, sort rem)"
  let ?m = "\<lparr>start = s, end_idx = e, die = d\<rparr>"
  show ?case
  proof (intro allI impI)
    fix st' assume ml: "moves_loop p b rem acc s ((d, e) # cs) ?st = Inr st'"
      and fo: "fresh_ok ?st"
      and legal: "\<forall>(d, e) \<in> set ((d, e) # cs). d \<in> set rem
        \<and> (\<exists>ts. legal_single_targets b p s [d] = Inr ts \<and> (d, e) \<in> set ts)"
    have legal': "\<forall>(d, e) \<in> set cs. d \<in> set rem
        \<and> (\<exists>ts. legal_single_targets b p s [d] = Inr ts \<and> (d, e) \<in> set ts)"
      using legal by auto
    show "fresh_ok st'
      \<and> (\<forall>r \<in> set (snd (snd st')). r \<in> set (snd (snd ?st)) \<or> finished b p rem acc r)
      \<and> (\<not> fst st' \<longrightarrow> \<not> fst ?st \<and> (d, e) # cs = [])"
    proof (cases "?key \<in> used_mask")
      case True
      with ml have ml': "moves_loop p b rem acc s cs ?st = Inr st'"
        by (simp add: moves_loop.simps)
      from True fo have ua: "used_any" by (auto simp: fresh_ok_def)
      from "5.IH"(1) [OF True] ml' fo legal'
      have "fresh_ok st'"
        "\<forall>r \<in> set (snd (snd st')). r \<in> set (snd (snd ?st)) \<or> finished b p rem acc r"
        "\<not> fst st' \<longrightarrow> \<not> fst ?st \<and> cs = []"
        by blast+
      with ua show ?thesis by auto
    next
      case False
      with ml obtain b2 rem' sub where
        ap: "apply_single_move (clone b) p s e = (None, b2)"
        and lr: "list_remove rem d = Inr rem'"
        and bt: "backtrack p b2 rem' (acc @ [?m]) = Inr sub"
        and ml': "moves_loop p b rem acc s cs (True, insert ?key used_mask, routes @ sub) = Inr st'"
        by (auto simp: moves_loop.simps split: sum.splits prod.splits option.splits)
      have rem': "rem' = remove1 d rem" "d \<in> set rem"
        using lr by (auto simp: list_remove_def split: if_splits)
      from legal obtain ts where ts: "legal_single_targets b p s [d] = Inr ts" "(d, e) \<in> set ts"
        by auto
      from "5.IH"(2) [OF False ap [symmetric] refl lr] bt
      have sub: "\<forall>r \<in> set sub. finished b2 p rem' (acc @ [?m]) r" by blast
      have sub': "\<forall>r \<in> set sub. finished b p rem acc r"
        using sub finished_step [OF ts rem'(2) ap [unfolded clone_def]] rem'(1) by blast
      have fo': "fresh_ok (True, insert ?key used_mask, routes @ sub)" by (simp add: fresh_ok_def)
      from "5.IH"(3) [OF False ap [symmetric] refl lr bt] ml' fo' legal'
      have "fresh_ok st'"
        "\<forall>r \<in> set (snd (snd st')). r \<in> set (routes @ sub) \<or> finished b p rem acc r"
        "fst st'"
        by auto
      with sub' show ?thesis by auto
    qed
  qed
qed

lemma update_values: "snd ` set (AList.update k v al) \<subseteq> insert v (snd ` set al)"
  by (induction al) auto

lemma fold_update_values:
  "snd ` set (fold (\<lambda>r u. AList.update (f r) r u) rs al) \<subseteq> set rs \<union> snd ` set al"
proof (induction rs arbitrary: al)
  case Nil
  then show ?case by simp
next
  case (Cons r rs)
  from Cons.IH [of "AList.update (f r) r al"] update_values [of "f r" r al]
  show ?case by auto
qed

lemma set_uniq_routes: "set (uniq_routes rs) \<subseteq> set rs"
  using fold_update_values [of route_key rs "[]"] by (simp add: uniq_routes_def)

lemma routes_bar_position:
  "generate_all_routes bar_position WHITE [3, 1] = Inr [route_22, route_24_7]"
  by code_simp

lemma play_route_22: "play bar_position WHITE [3, 1] (moves route_22) = Some (bar_entered_22, [1])"
  by code_simp

lemma no_move_stuck:
  assumes "no_move b p rem"
  shows "stuck b p rem"
proof -
  from assms obtain ss where ss: "starts_of b p = Inr ss"
    and all: "\<forall>s \<in> set ss. \<forall>d \<in> set rem. legal_single_targets b p s [d] = Inr []"
    by (auto simp: no_move_def list_all_iff split: sum.splits)
  from ss obtain nbar where nb: "count_on_bar b p = Inr nbar"
    and ssv: "ss = (if nbar > 0 then [bar_index p] else [1 .. 24])"
    by (auto simp: starts_of_def split: sum.splits)
  have "legal_single_targets b p s [d] = Inr []"
    if d: "d \<in> set rem" and pt: "point_at b s = Inr pt" and c: "checkers pt > 0" for s d pt
  proof (cases "nbar > 0")
    case True
    show ?thesis
    proof (cases "s = bar_index p")
      case True
      with \<open>nbar > 0\<close> ssv all d show ?thesis by simp
    next
      case False
      with \<open>nbar > 0\<close> nb show ?thesis by (simp add: legal_single_targets_def)
    qed
  next
    case False
    have sb: "s \<noteq> bar_index p"
    proof
      assume "s = bar_index p"
      with nb pt have "checkers pt = nbar" by (simp add: count_on_bar_def)
      with c False show False by simp
    qed
    show ?thesis
    proof (cases "1 \<le> s \<and> s \<le> 24")
      case True
      with False ssv have "s \<in> set ss" by simp
      with all d show ?thesis by blast
    next
      case False
      with sb nb \<open>\<not> nbar > 0\<close> show ?thesis by (simp add: legal_single_targets_def)
    qed
  qed
  then show ?thesis unfolding stuck_def by blast
qed

section \<open>The store model against the value model\<close>

declare backtrack_at.simps [simp del] starts_loop_at.simps [simp del] moves_loop_at.simps [simp del]

lemma extends_refl: "extends h h"
  by (simp add: extends_def)

lemma extends_trans: "extends h h1 \<Longrightarrow> extends h1 h2 \<Longrightarrow> extends h h2"
  by (auto simp: extends_def)

lemma extends_nth: "extends h h' \<Longrightarrow> a < length h \<Longrightarrow> h' ! a = h ! a"
  by (auto simp: extends_def nth_append)

lemma extends_length: "extends h h' \<Longrightarrow> a < length h \<Longrightarrow> a < length h'"
  by (auto simp: extends_def)

lemma clone_apply_extends:
  assumes "clone_at h a = (h1, a2)" and "apply_single_move_at h1 a2 p s e = (r, h2)"
  shows "extends h h2 \<and> a2 < length h2
         \<and> (r, h2 ! a2) = apply_single_move (clone (h ! a)) p s e"
proof -
  from assms(1) have h1: "h1 = h @ [clone (h ! a)]" and a2: "a2 = length h"
    by (simp_all add: clone_at_def)
  obtain r' b' where ap: "apply_single_move (clone (h ! a)) p s e = (r', b')"
    by (cases "apply_single_move (clone (h ! a)) p s e")
  with assms(2) h1 a2 have "r = r'" "h2 = h @ [b']"
    by (simp_all add: apply_single_move_at_def)
  with ap a2 show ?thesis by (simp add: extends_def)
qed

lemma backtrack_at_frame:
  "a < length h \<longrightarrow> extends h (snd (backtrack_at p h a rem acc))
     \<and> fst (backtrack_at p h a rem acc) = backtrack p (h ! a) rem acc"
  "a < length h \<longrightarrow> extends h (snd (starts_loop_at p h a rem acc ss st))
     \<and> fst (starts_loop_at p h a rem acc ss st) = starts_loop p (h ! a) rem acc ss st"
  "a < length h \<longrightarrow> extends h (snd (moves_loop_at p h a rem acc s cs st))
     \<and> fst (moves_loop_at p h a rem acc s cs st) = moves_loop p (h ! a) rem acc s cs st"
proof (induction p h a rem acc and p h a rem acc ss st and p h a rem acc s cs st
       rule: backtrack_at_starts_loop_at_moves_loop_at.induct)
  case (1 p h a rem acc)
  show ?case
  proof
    assume a: "a < length h"
    show "extends h (snd (backtrack_at p h a rem acc))
      \<and> fst (backtrack_at p h a rem acc) = backtrack p (h ! a) rem acc"
    proof (cases "rem = []")
      case True
      then show ?thesis
        by (simp add: backtrack_at.simps backtrack.simps extends_refl)
    next
      case False
      show ?thesis
      proof (cases "starts_of (h ! a) p")
        case (Inl er)
        with False show ?thesis
          by (simp add: backtrack_at.simps [of p h a rem acc] backtrack.simps [of p "h ! a" rem acc]
              extends_refl)
      next
        case (Inr starts)
        from "1.IH" [OF False Inr] a
        have ih: "extends h (snd (starts_loop_at p h a rem acc starts (False, {}, [])))"
          "fst (starts_loop_at p h a rem acc starts (False, {}, []))
             = starts_loop p (h ! a) rem acc starts (False, {}, [])"
          by simp_all
        obtain res h' where r: "starts_loop_at p h a rem acc starts (False, {}, []) = (res, h')"
          by (cases "starts_loop_at p h a rem acc starts (False, {}, [])")
        with ih have e: "extends h h'"
          and f: "starts_loop p (h ! a) rem acc starts (False, {}, []) = res" by simp_all
        show ?thesis
          using False Inr r e f
          by (cases res)
            (auto simp: backtrack_at.simps [of p h a rem acc]
              backtrack.simps [of p "h ! a" rem acc] split: prod.splits)
      qed
    qed
  qed
next
  case (2 p h a rem acc st)
  show ?case by (simp add: starts_loop_at.simps starts_loop.simps extends_refl)
next
  case (3 p h a rem acc s ss st)
  show ?case
  proof
    assume a: "a < length h"
    show "extends h (snd (starts_loop_at p h a rem acc (s # ss) st))
      \<and> fst (starts_loop_at p h a rem acc (s # ss) st) = starts_loop p (h ! a) rem acc (s # ss) st"
    proof (cases "cands_loop (h ! a) p s rem")
      case (Inl er)
      then show ?thesis
        by (simp add: starts_loop_at.simps starts_loop.simps extends_refl)
    next
      case (Inr cands)
      obtain res h' where r: "moves_loop_at p h a rem acc s cands st = (res, h')"
        by (cases "moves_loop_at p h a rem acc s cands st")
      from "3.IH"(1) [OF Inr] a r
      have e: "extends h h'" and f: "moves_loop p (h ! a) rem acc s cands st = res" by simp_all
      show ?thesis
      proof (cases res)
        case (Inl er)
        with Inr r e f show ?thesis
          by (simp add: starts_loop_at.simps starts_loop.simps)
      next
        case (Inr st')
        have a': "a < length h'" using e a by (rule extends_length)
        have n: "h' ! a = h ! a" using e a by (rule extends_nth)
        from "3.IH"(2) [OF \<open>cands_loop (h ! a) p s rem = Inr cands\<close> r [symmetric] Inr] a' n
        have "extends h' (snd (starts_loop_at p h' a rem acc ss st'))"
          "fst (starts_loop_at p h' a rem acc ss st') = starts_loop p (h ! a) rem acc ss st'"
          by simp_all
        with e Inr r f \<open>cands_loop (h ! a) p s rem = Inr cands\<close> show ?thesis
          by (auto simp: starts_loop_at.simps starts_loop.simps intro: extends_trans)
      qed
    qed
  qed
next
  case (4 p h a rem acc s st)
  show ?case by (simp add: moves_loop_at.simps moves_loop.simps extends_refl)
next
  case (5 p h a rem acc s d e cs used_any used_mask routes)
  let ?st = "(used_any, used_mask, routes)"
  let ?key = "(s, e, d, sort rem)"
  let ?m = "\<lparr>start = s, end_idx = e, die = d\<rparr>"
  show ?case
  proof
    assume a: "a < length h"
    show "extends h (snd (moves_loop_at p h a rem acc s ((d, e) # cs) ?st))
      \<and> fst (moves_loop_at p h a rem acc s ((d, e) # cs) ?st)
          = moves_loop p (h ! a) rem acc s ((d, e) # cs) ?st"
    proof (cases "?key \<in> used_mask")
      case True
      with "5.IH"(1) [OF True] a show ?thesis
        by (simp add: moves_loop_at.simps moves_loop.simps)
    next
      case False
      obtain h1 a2 where cl: "clone_at h a = (h1, a2)" by (cases "clone_at h a")
      obtain r h2 where ap: "apply_single_move_at h1 a2 p s e = (r, h2)"
        by (cases "apply_single_move_at h1 a2 p s e")
      from clone_apply_extends [OF cl ap]
      have e2: "extends h h2" and a2: "a2 < length h2"
        and pure: "apply_single_move (clone (h ! a)) p s e = (r, h2 ! a2)" by simp_all
      show ?thesis
      proof (cases r)
        case (Some er)
        with False cl ap e2 pure show ?thesis
          by (simp add: moves_loop_at.simps moves_loop.simps)
      next
        case None
        show ?thesis
        proof (cases "list_remove rem d")
          case (Inl er)
          with False cl ap e2 pure None show ?thesis
            by (simp add: moves_loop_at.simps moves_loop.simps)
        next
          case (Inr rem')
          obtain res h3 where bt: "backtrack_at p h2 a2 rem' (acc @ [?m]) = (res, h3)"
            by (cases "backtrack_at p h2 a2 rem' (acc @ [?m])")
          from "5.IH"(2) [OF False cl [symmetric] ap [symmetric] None Inr] a2 bt
          have e3: "extends h2 h3" and f3: "backtrack p (h2 ! a2) rem' (acc @ [?m]) = res"
            by simp_all
          have e3': "extends h h3" using e2 e3 by (rule extends_trans)
          show ?thesis
          proof (cases res)
            case (Inl er)
            with False cl ap None \<open>list_remove rem d = Inr rem'\<close> bt e3' f3 pure show ?thesis
              by (simp add: moves_loop_at.simps moves_loop.simps)
          next
            case (Inr sub)
            have a': "a < length h3" using e3' a by (rule extends_length)
            have n: "h3 ! a = h ! a" using e3' a by (rule extends_nth)
            from "5.IH"(3) [OF False cl [symmetric] ap [symmetric] None
                \<open>list_remove rem d = Inr rem'\<close> bt [symmetric] Inr] a' n
            have "extends h3 (snd (moves_loop_at p h3 a rem acc s cs
                     (True, insert ?key used_mask, routes @ sub)))"
              "fst (moves_loop_at p h3 a rem acc s cs (True, insert ?key used_mask, routes @ sub))
                 = moves_loop p (h ! a) rem acc s cs (True, insert ?key used_mask, routes @ sub)"
              by simp_all
            with False cl ap None \<open>list_remove rem d = Inr rem'\<close> bt e3' f3 pure Inr show ?thesis
              by (auto simp: moves_loop_at.simps moves_loop.simps intro: extends_trans)
          qed
        qed
      qed
    qed
  qed
qed

section \<open>Route generation raises nothing on boards of the data model\<close>

lemma is_blocked_for_total:
  "length (points b) = 28 \<Longrightarrow> \<exists>blk. is_blocked_for b e p = Inr blk"
proof (cases "1 \<le> e \<and> e \<le> 24")
  case True
  then show ?thesis if "length (points b) = 28" using that by (simp add: is_blocked_for_inv)
next
  case False
  then show ?thesis by (auto simp: is_blocked_for_def)
qed

lemma enter_loop_total:
  "length (points b) = 28 \<Longrightarrow> \<exists>ts. enter_loop b p ds = Inr ts"
proof (induction ds)
  case Nil
  then show ?case by simp
next
  case (Cons d ds)
  then obtain ts where "enter_loop b p ds = Inr ts" by blast
  moreover obtain blk where "is_blocked_for b (if p = WHITE then 25 - d else d) p = Inr blk"
    using is_blocked_for_total [OF Cons.prems] by blast
  ultimately show ?case by (simp add: Let_def)
qed

lemma point_loop_total:
  "length (points b) = 28 \<Longrightarrow> \<exists>ts. point_loop b p s ds = Inr ts"
proof (induction ds)
  case Nil
  then show ?case by simp
next
  case (Cons d ds)
  then obtain ts where "point_loop b p s ds = Inr ts" by blast
  moreover obtain blk where "is_blocked_for b (s + dir p * d) p = Inr blk"
    using is_blocked_for_total [OF Cons.prems] by blast
  ultimately show ?case by (simp add: Let_def)
qed

lemma count_on_bar_inv:
  "length (points b) = 28 \<Longrightarrow> count_on_bar b p = Inr (checkers (points b ! nat (bar_index p)))"
  by (simp add: count_on_bar_def point_at_inv bar_index_range)

lemma legal_single_targets_total:
  assumes "length (points b) = 28"
  shows "\<exists>ts. legal_single_targets b p s ds = Inr ts"
proof -
  obtain t1 where t1: "enter_loop b p ds = Inr t1" using enter_loop_total [OF assms] by blast
  obtain t2 where t2: "point_loop b p s ds = Inr t2" using point_loop_total [OF assms] by blast
  show ?thesis
    using t1 t2 assms
    by (auto simp: legal_single_targets_def count_on_bar_inv point_at_inv)
qed

lemma cands_loop_total:
  "length (points b) = 28 \<Longrightarrow> \<exists>cs. cands_loop b p s ds = Inr cs"
proof (induction ds)
  case Nil
  then show ?case by simp
next
  case (Cons d ds)
  then obtain cs where "cands_loop b p s ds = Inr cs" by blast
  moreover obtain ts where "legal_single_targets b p s [d] = Inr ts"
    using legal_single_targets_total [OF Cons.prems] by blast
  ultimately show ?case by simp
qed

lemma starts_of_explored:
  assumes "length (points b) = 28"
  shows "\<exists>ss. starts_of b p = Inr ss \<and> (\<forall>s \<in> set ss. explored b p s)"
proof (cases "checkers (points b ! nat (bar_index p)) > 0")
  case True
  then show ?thesis using assms
    by (simp add: starts_of_def count_on_bar_inv explored_def)
next
  case False
  then show ?thesis using assms
    by (auto simp: starts_of_def count_on_bar_inv explored_def bar_index_def)
qed

lemma not_isl_Inr: "\<not> isl x \<Longrightarrow> \<exists>y. x = Inr y"
  by (cases x) simp_all

lemma backtrack_total:
  "board_inv b \<longrightarrow> \<not> isl (backtrack p b rem acc)"
  "board_inv b \<longrightarrow> (\<forall>s \<in> set ss. explored b p s) \<longrightarrow>
     \<not> isl (starts_loop p b rem acc ss st)"
  "board_inv b \<longrightarrow> explored b p s \<longrightarrow>
     (\<forall>(d, e) \<in> set cs. d \<in> set rem
        \<and> (\<exists>ts. legal_single_targets b p s [d] = Inr ts \<and> (d, e) \<in> set ts)) \<longrightarrow>
     \<not> isl (moves_loop p b rem acc s cs st)"
proof (induction p b rem acc and p b rem acc ss st and p b rem acc s cs st
       rule: backtrack_starts_loop_moves_loop.induct)
  case (1 p b rem acc)
  show ?case
  proof
    assume inv: "board_inv b"
    show "\<not> isl (backtrack p b rem acc)"
    proof (cases "rem = []")
      case True
      then show ?thesis by (simp add: backtrack.simps)
    next
      case False
      from starts_of_explored [OF board_inv_length [OF inv], of p]
      obtain ss where ss: "starts_of b p = Inr ss" "\<forall>s \<in> set ss. explored b p s" by blast
      from "1.IH" [OF False ss(1)] inv ss(2)
      have "\<not> isl (starts_loop p b rem acc ss (False, {}, []))" by blast
      then obtain st' where "starts_loop p b rem acc ss (False, {}, []) = Inr st'"
        by (blast dest: not_isl_Inr)
      with False ss(1) show ?thesis
        by (cases st') (simp add: backtrack.simps [of p b rem acc])
    qed
  qed
next
  case (2 p b rem acc st)
  show ?case by (simp add: starts_loop.simps)
next
  case (3 p b rem acc s ss st)
  show ?case
  proof (intro impI)
    assume inv: "board_inv b" and ex: "\<forall>s \<in> set (s # ss). explored b p s"
    from cands_loop_total [OF board_inv_length [OF inv], of p s rem]
    obtain cands where cl: "cands_loop b p s rem = Inr cands" by blast
    have legal: "\<forall>(d, e) \<in> set cands. d \<in> set rem
        \<and> (\<exists>ts. legal_single_targets b p s [d] = Inr ts \<and> (d, e) \<in> set ts)"
      using cands_loop_mem [OF cl] by auto
    from "3.IH"(1) [OF cl] inv ex legal
    have "\<not> isl (moves_loop p b rem acc s cands st)" by auto
    then obtain st1 where ml: "moves_loop p b rem acc s cands st = Inr st1"
      by (blast dest: not_isl_Inr)
    from "3.IH"(2) [OF cl ml] inv ex
    have "\<not> isl (starts_loop p b rem acc ss st1)" by auto
    with cl ml show "\<not> isl (starts_loop p b rem acc (s # ss) st)"
      by (simp add: starts_loop.simps)
  qed
next
  case (4 p b rem acc s st)
  show ?case by (simp add: moves_loop.simps)
next
  case (5 p b rem acc s d e cs used_any used_mask routes)
  let ?st = "(used_any, used_mask, routes)"
  let ?key = "(s, e, d, sort rem)"
  let ?m = "\<lparr>start = s, end_idx = e, die = d\<rparr>"
  show ?case
  proof (intro impI)
    assume inv: "board_inv b" and ex: "explored b p s"
      and legal: "\<forall>(d, e) \<in> set ((d, e) # cs). d \<in> set rem
        \<and> (\<exists>ts. legal_single_targets b p s [d] = Inr ts \<and> (d, e) \<in> set ts)"
    have legal': "\<forall>(d, e) \<in> set cs. d \<in> set rem
        \<and> (\<exists>ts. legal_single_targets b p s [d] = Inr ts \<and> (d, e) \<in> set ts)"
      using legal by auto
    show "\<not> isl (moves_loop p b rem acc s ((d, e) # cs) ?st)"
    proof (cases "?key \<in> used_mask")
      case True
      with "5.IH"(1) [OF True] inv ex legal' show ?thesis
        by (simp add: moves_loop.simps)
    next
      case False
      from legal obtain ts where ts: "legal_single_targets b p s [d] = Inr ts" "(d, e) \<in> set ts"
        and d: "d \<in> set rem" by auto
      obtain r b2 where ap: "apply_single_move (clone b) p s e = (r, b2)"
        by (cases "apply_single_move (clone b) p s e")
      from apply_legal_move [OF inv ts ap [unfolded clone_def]] ex
      have inv2: "board_inv b2" and r: "r = None" by (auto simp: explored_def)
      have lr: "list_remove rem d = Inr (remove1 d rem)" using d by (simp add: list_remove_def)
      from "5.IH"(2) [OF False ap [symmetric, unfolded r] refl lr] inv2
      have "\<not> isl (backtrack p b2 (remove1 d rem) (acc @ [?m]))" by blast
      then obtain sub where bt: "backtrack p b2 (remove1 d rem) (acc @ [?m]) = Inr sub"
        by (blast dest: not_isl_Inr)
      from "5.IH"(3) [OF False ap [symmetric, unfolded r] refl lr bt] inv ex legal'
      have "\<not> isl (moves_loop p b rem acc s cs (True, insert ?key used_mask, routes @ sub))"
        by blast
      with False ap r lr bt show ?thesis
        by (simp add: moves_loop.simps)
    qed
  qed
qed

lemma generate_all_routes_total:
  assumes "board_inv b"
  shows "\<exists>rs. generate_all_routes b p ds = Inr rs"
proof -
  from backtrack_total(1) [of b p ds "[]"] assms
  obtain routes where "backtrack p b ds [] = Inr routes" by (blast dest: not_isl_Inr)
  then show ?thesis by (simp add: generate_all_routes_def)
qed

section \<open>Rounding: what follows from \<open>ieee_like\<close>\<close>

lemma ieee_mono: "ieee_like rnd \<Longrightarrow> x \<le> y \<Longrightarrow> rnd x \<le> rnd y"
  by (simp add: ieee_like_def)

lemma ieee_idem: "ieee_like rnd \<Longrightarrow> rnd (rnd x) = rnd x"
  by (simp add: ieee_like_def)

lemma ieee_int: "ieee_like rnd \<Longrightarrow> \<bar>n\<bar> \<le> 2 ^ 53 \<Longrightarrow> rnd (real_of_int n) = real_of_int n"
  by (simp add: ieee_like_def)

lemma ieee_0: "ieee_like rnd \<Longrightarrow> rnd 0 = 0"
  using ieee_int [of rnd 0] by simp

lemma ieee_1: "ieee_like rnd \<Longrightarrow> rnd 1 = 1"
  using ieee_int [of rnd 1] by simp


lemma ieee_3: "ieee_like rnd \<Longrightarrow> rnd 3 = 3"
  using ieee_int [of rnd 3] by simp

lemma ieee_nonneg: "ieee_like rnd \<Longrightarrow> 0 \<le> x \<Longrightarrow> 0 \<le> rnd x"
  using ieee_mono [of rnd 0 x] ieee_0 [of rnd] by simp

lemma ieee_le_fixed: "ieee_like rnd \<Longrightarrow> x \<le> y \<Longrightarrow> rnd y = y \<Longrightarrow> rnd x \<le> y"
  using ieee_mono [of rnd x y] by simp


lemma eta_small: "eta \<le> 1 / 2 ^ 120"
proof -
  have "(2 :: real) ^ 120 \<le> 2 ^ 1075" by (rule power_increasing) simp_all
  then show ?thesis unfolding eta_def by (simp add: frac_le)
qed


lemma u53_val: "u53 = 1 / 9007199254740992"
  by (simp add: u53_def)

lemma ieee_err:
  assumes "ieee_like rnd" "0 \<le> x" "x \<le> B" "B \<le> 2 ^ 1000"
  shows "rnd x \<le> x + (B * u53 + eta)" and "x - (B * u53 + eta) \<le> rnd x"
proof -
  from assms have "\<bar>x\<bar> \<le> 2 ^ 1000" by linarith
  with assms(1) have "\<bar>rnd x - x\<bar> \<le> \<bar>x\<bar> * u53 + eta" by (simp add: ieee_like_def)
  moreover have "\<bar>x\<bar> * u53 \<le> B * u53"
    using assms(2,3) by (intro mult_right_mono) (simp_all add: u53_def)
  ultimately show "rnd x \<le> x + (B * u53 + eta)" and "x - (B * u53 + eta) \<le> rnd x"
    by linarith+
qed


lemma eps9_bounds:
  assumes "ieee_like rnd"
  shows "9 / 10 ^ 10 \<le> eps9 rnd" and "eps9 rnd \<le> 15 / 10 ^ 10"
    and "0 < eps9 rnd" and "rnd (eps9 rnd) = eps9 rnd"
proof -
  have "rnd (1 / 10 ^ 9) \<le> 1 / 10 ^ 9 + (1 * u53 + eta)"
    and "1 / 10 ^ 9 - (1 * u53 + eta) \<le> rnd (1 / 10 ^ 9)"
    using ieee_err [OF assms, of "1 / 10 ^ 9" 1] by simp_all
  then show "9 / 10 ^ 10 \<le> eps9 rnd" and "eps9 rnd \<le> 15 / 10 ^ 10"
    using eta_small unfolding eps9_def u53_val by simp_all
  then show "0 < eps9 rnd" by simp
  show "rnd (eps9 rnd) = eps9 rnd"
    unfolding eps9_def by (rule ieee_idem [OF assms])
qed

section \<open>Memberships and activations lie in the unit interval\<close>











section \<open>The weighted average under rounding\<close>



section \<open>The score of \<open>poor_only\<close>\<close>

lemma bind_e_eval: "m = Inr v \<Longrightarrow> f v = r \<Longrightarrow> bind_e m f = r"
  by (simp add: bind_e_def)

lemma literal_facts:
  assumes il: "ieee_like rnd"
  shows "0 < rnd (5 / 10)" "rnd (5 / 10) \<le> 1" "1 \<le> rnd (15 / 10)" "rnd (25 / 10) \<le> 3"
    "0 \<le> rnd (10 / 100)" "0 \<le> rnd (30 / 100)" "0 \<le> rnd (65 / 100)"
proof -
  have "5 / 10 - (1 * u53 + eta) \<le> rnd (5 / 10)"
    by (rule ieee_err(2) [OF il]) simp_all
  then show "0 < rnd (5 / 10)" using eta_small unfolding u53_val by simp
  show "rnd (5 / 10) \<le> 1" by (rule ieee_le_fixed [OF il _ ieee_1 [OF il]]) simp
  show "1 \<le> rnd (15 / 10)" using ieee_mono [OF il, of 1 "15 / 10"] ieee_1 [OF il] by simp
  show "rnd (25 / 10) \<le> 3" by (rule ieee_le_fixed [OF il _ ieee_3 [OF il]]) simp
  show "0 \<le> rnd (10 / 100)" "0 \<le> rnd (30 / 100)" "0 \<le> rnd (65 / 100)"
    by (rule ieee_nonneg [OF il], simp)+
qed

lemma rule_strengths_poor_only:
  assumes il: "ieee_like rnd"
  shows "rule_strengths rnd poor_only = Inr (1, 0, 0)"
  unfolding rule_strengths_def
  using literal_facts [OF il]
  apply -
  apply (rule bind_e_eval [where v = 1], simp add: tri_def poor_only_def)
  apply (rule bind_e_eval [where v = 0], simp add: tri_def poor_only_def)
  apply (rule bind_e_eval [where v = 0], simp add: tri_def poor_only_def)
  apply (rule bind_e_eval [where v = 1], simp add: trap_def poor_only_def)
  apply (rule bind_e_eval [where v = 0], simp add: tri_def poor_only_def)
  apply (rule bind_e_eval [where v = 0], simp add: tri_def poor_only_def)
  apply (rule bind_e_eval [where v = 0], simp add: tri_def poor_only_def)
  apply (rule bind_e_eval [where v = 0], simp add: tri_def poor_only_def)
  apply (rule bind_e_eval [where v = 1], simp add: tri_def poor_only_def)
  apply (rule bind_e_eval [where v = 1], simp add: tri_def poor_only_def)
  apply (rule bind_e_eval [where v = 0], simp add: tri_def poor_only_def)
  apply (rule bind_e_eval [where v = 0], simp add: tri_def poor_only_def)
  apply (rule bind_e_eval [where v = 0], simp add: trap_def poor_only_def)
  apply (rule bind_e_eval [where v = 0], simp add: tri_def poor_only_def)
  apply (rule bind_e_eval [where v = 1], simp add: tri_def poor_only_def)
  apply (rule bind_e_eval [where v = 1], simp add: trap_def poor_only_def)
  apply (rule bind_e_eval [where v = 0], simp add: tri_def poor_only_def)
  apply (rule bind_e_eval [where v = 0], simp add: tri_def poor_only_def)
  apply (rule bind_e_eval [where v = 0], simp add: tri_def poor_only_def)
  apply (rule bind_e_eval [where v = 0], simp add: tri_def poor_only_def)
  apply (rule bind_e_eval [where v = 0], simp add: tri_def poor_only_def)
  apply (rule bind_e_eval [where v = 1], simp add: tri_def poor_only_def)
  apply (rule bind_e_eval [where v = 0], simp add: tri_def poor_only_def)
  apply (rule bind_e_eval [where v = 0], simp add: tri_def poor_only_def)
  apply (simp add: Let_def min3_def)
  done

text \<open>
  With only Poor active, at strength 1, the score is the smallest centre
  divided by \<open>1 + 1e-9\<close>, rounded: under every rounding with \<open>ieee_like\<close> it is
  below the smallest centre.
\<close>

lemma poor_only_below_centre:
  assumes il: "ieee_like rnd"
  shows "\<exists>v. fuzzy_score rnd poor_only (DEFAULT_OUT rnd) = Inr v \<and> v < rnd (2 / 10)"
proof -
  define c where "c = rnd (2 / 10)"
  define D where "D = rnd (1 + eps9 rnd)"
  have E: "9 / 10 ^ 10 \<le> eps9 rnd" "eps9 rnd \<le> 15 / 10 ^ 10"
    by (rule eps9_bounds [OF il])+
  have rc: "rnd c = c" unfolding c_def by (rule ieee_idem [OF il])
  have "2 / 10 - (1 * u53 + eta) \<le> rnd (2 / 10)"
    by (rule ieee_err(2) [OF il]) simp_all
  then have c_lo: "19 / 100 \<le> c" using eta_small unfolding c_def u53_val by simp
  have c_hi: "c \<le> 1" unfolding c_def by (rule ieee_le_fixed [OF il _ ieee_1 [OF il]]) simp
  have "1 + eps9 rnd - (2 * u53 + eta) \<le> D" "D \<le> 1 + eps9 rnd + (2 * u53 + eta)"
    unfolding D_def using E by (intro ieee_err [OF il]; simp)+
  then have D: "1 + 8 / 10000000000 \<le> D" "D \<le> 2"
    using E eta_small unfolding u53_val by simp_all
  then have D0: "0 < D" by linarith
  define q where "q = c / D"
  have q0: "0 \<le> q" unfolding q_def using c_lo D0 by simp
  have qD: "q * D = c" unfolding q_def using D0 by simp
  have "q * (1 + 8 / 10000000000) \<le> q * D" "q * D \<le> q * 2"
    using D q0 by (intro mult_left_mono; simp)+
  then have q1: "q + 8 * q / 10000000000 \<le> c" "c \<le> 2 * q"
    unfolding qD by (simp_all add: algebra_simps)
  then have q_hi: "q \<le> 1" using c_hi q0 by linarith
  have "rnd q \<le> q + (1 * u53 + eta)"
    by (rule ieee_err(1) [OF il q0 q_hi]) simp
  then have "rnd q \<le> q + 1 / 9007199254740992 + 1 / 1000000000000000000000000"
    using eta_small unfolding u53_val by simp
  then have lt: "rnd q < c" using q1 c_lo by linarith
  have "fuzzy_score rnd poor_only (DEFAULT_OUT rnd) = Inr (rnd q)"
    using D0 rc
    by (simp add: fuzzy_score_def rule_strengths_poor_only [OF il] bind_e_def DEFAULT_OUT_def
        fdiv_def ieee_0 [OF il] ieee_1 [OF il] q_def c_def D_def)
  with lt show ?thesis unfolding c_def by blast
qed

section \<open>Bar entry is mandatory\<close>

text \<open>
  C8. If the player has at least one checker on their bar slot and the start
  index is not that bar slot, \<^verbatim>\<open>legal_single_targets\<close> returns the empty list,
  for every board, player and dice.
\<close>

theorem legal_single_targets_bar_first:
  assumes "count_on_bar b p = Inr n" and "n > 0" and "s \<noteq> bar_index p"
  shows "legal_single_targets b p s ds = Inr []"
  using assms by (simp add: legal_single_targets_def)

theorem legal_single_targets_bar_first_witness:
  "count_on_bar bar_position WHITE = Inr 1 \<and> (0::int) < 1 \<and> 10 \<noteq> bar_index WHITE
   \<and> legal_single_targets bar_position WHITE 10 [3, 1] = Inr []"
proof -
  have c: "count_on_bar bar_position WHITE = Inr 1"
    by (simp add: count_on_bar_def point_at_def py_index_def bar_index_def
        bar_position_def mk_def)
  have n: "10 \<noteq> bar_index WHITE" by (simp add: bar_index_def)
  show ?thesis
    using c n legal_single_targets_bar_first [OF c _ n, of "[3, 1]"] by simp
qed

section \<open>Evaluator slots against the data model\<close>

text \<open>
  C2. The claim: the bar-count feature of both evaluators reads the player's
  bar slot (0 for WHITE, 26 for BLACK) and the off-tray feature reads the
  player's off-tray slot (25 for WHITE, 27 for BLACK). For BLACK the code reads
  slot 25 as the bar and slot 0 as the off-tray. On \<open>hit_position\<close>, reached
  from the standard setup by three legal moves, the engine counts one BLACK
  checker on the bar and both evaluators report none; on
  \<open>black_bar_position\<close> the engine counts two BLACK checkers borne off and
  both evaluators report none.
\<close>

theorem evaluator_black_slots_diverge:
  "reachable hit_position
   \<and> count_on_bar hit_position BLACK = Inr 1
   \<and> Evaluator_count_on_bar hit_position BLACK = Inr 0
   \<and> on_bar hit_position BLACK = Inr 0
   \<and> count_off black_bar_position BLACK = Inr 2
   \<and> Evaluator_count_borne_off black_bar_position BLACK = Inr 0
   \<and> borne_off black_bar_position BLACK = Inr 0"
proof -
  have "count_on_bar hit_position BLACK = Inr 1
   \<and> Evaluator_count_on_bar hit_position BLACK = Inr 0
   \<and> on_bar hit_position BLACK = Inr 0"
    by (simp add: count_on_bar_def Evaluator_count_on_bar_def on_bar_def point_at_def
        py_index_def bar_index_def hit_position_def mk_def Point0_def)
  moreover have "count_off black_bar_position BLACK = Inr 2
   \<and> Evaluator_count_borne_off black_bar_position BLACK = Inr 0
   \<and> borne_off black_bar_position BLACK = Inr 0"
    by (simp add: count_off_def Evaluator_count_borne_off_def borne_off_def point_at_def
        py_index_def off_index_def black_bar_position_def mk_def Point0_def)
  ultimately show ?thesis using reachable_hit_position by simp
qed

section \<open>Missing dice in apply\_route\<close>

text \<open>
  C9. \<^verbatim>\<open>Engine.apply_route\<close> never raises on a die value missing from the
  active dice. For every engine and every route, of any length: the call
  raises exactly what the board moves raise, the board it leaves is the one
  obtained by performing the board mutation of every move in turn (up to the
  first that raises), and the dice it leaves are the dice with the die of each
  applied move removed once if present and skipped if absent. When no die of
  the route is among the dice, the dice are left as they were.
\<close>

theorem apply_route_missing_die:
  "fst (apply_route en r) = fst (apply_boards (board en) (turn en) (moves r))
   \<and> board (snd (apply_route en r)) = snd (apply_boards (board en) (turn en) (moves r))
   \<and> turn (snd (apply_route en r)) = turn en
   \<and> dice (snd (apply_route en r))
       = fold remove1 (map die (applied (board en) (turn en) (moves r))) (dice en)
   \<and> ((\<forall>m \<in> set (moves r). die m \<notin> set (dice en))
        \<longrightarrow> dice (snd (apply_route en r)) = dice en)"
proof -
  have "dice (snd (apply_route en r)) = dice en"
    if "\<forall>m \<in> set (moves r). die m \<notin> set (dice en)"
  proof -
    have "\<forall>d \<in> set (map die (applied (board en) (turn en) (moves r))). d \<notin> set (dice en)"
      using that applied_subset [of "board en" "turn en" "moves r"] by auto
    then show ?thesis
      using apply_moves_boards [of en "moves r"]
      by (simp add: apply_route_def fold_remove1_absent)
  qed
  then show ?thesis
    using apply_moves_boards [of en "moves r"] by (simp add: apply_route_def)
qed

theorem apply_route_missing_die_witness:
  "list_all (\<lambda>m. die m \<notin> set [5])
     [\<lparr>start = 0, end_idx = 24, die = 1\<rparr>, \<lparr>start = 10, end_idx = 7, die = 3\<rparr>]
   \<and> apply_route \<lparr>board = bar_position, turn = WHITE, dice = [5]\<rparr>
        \<lparr>moves = [\<lparr>start = 0, end_idx = 24, die = 1\<rparr>, \<lparr>start = 10, end_idx = 7, die = 3\<rparr>]\<rparr>
      = (None, \<lparr>board = bar_played_24_7, turn = WHITE, dice = [5]\<rparr>)"
proof -
  let ?en = "\<lparr>board = bar_position, turn = WHITE, dice = [5]\<rparr>"
  let ?r = "\<lparr>moves = [\<lparr>start = 0, end_idx = 24, die = 1\<rparr>, \<lparr>start = 10, end_idx = 7, die = 3\<rparr>]\<rparr>"
  have h: "\<forall>m \<in> set (moves ?r). die m \<notin> set (dice ?en)" by simp
  from apply_route_missing_die [of ?en ?r] h
  have "fst (apply_route ?en ?r) = None" "board (snd (apply_route ?en ?r)) = bar_played_24_7"
    "turn (snd (apply_route ?en ?r)) = WHITE" "dice (snd (apply_route ?en ?r)) = [5]"
    by (simp_all add: apply_bar_24 apply_bar_24_7)
  then have "apply_route ?en ?r = (None, \<lparr>board = bar_played_24_7, turn = WHITE, dice = [5]\<rparr>)"
    by (cases "apply_route ?en ?r") (auto intro: Engine.equality)
  then show ?thesis by simp
qed

section \<open>Checker conservation\<close>

text \<open>
  C3. On a board of the data model (28 pockets, each satisfying the point
  invariant, bar and off-tray slots free of the opponent's checkers) on which
  each player's total over all pockets is 15, applying a move whose
  \<open>(die, end)\<close> pair was returned by \<^verbatim>\<open>legal_single_targets\<close> leaves each
  player's total at 15: a hit moves the opponent's checker to the opponent's
  bar. The call raises only when the start is the player's empty bar slot, and
  then before any mutation.
\<close>

theorem apply_single_move_conserves:
  assumes "board_inv b" and "total b WHITE = 15" and "total b BLACK = 15"
    and "legal_single_targets b p s ds = Inr ts" and "(d, e) \<in> set ts"
  shows "total (snd (apply_single_move b p s e)) WHITE = 15
         \<and> total (snd (apply_single_move b p s e)) BLACK = 15
         \<and> (fst (apply_single_move b p s e) = None
              \<or> (s = bar_index p \<and> count_on_bar b p = Inr 0
                  \<and> apply_single_move b p s e = (Some ValueError, b)))"
proof -
  obtain r b' where ap: "apply_single_move b p s e = (r, b')"
    by (cases "apply_single_move b p s e")
  from apply_legal_move [OF assms(1,4,5) ap] assms(2,3) ap
  show ?thesis by auto
qed

theorem apply_single_move_conserves_witness:
  "board_inv standard_board \<and> total standard_board WHITE = 15 \<and> total standard_board BLACK = 15
   \<and> legal_single_targets standard_board WHITE 24 [3] = Inr [(3, 21)]
   \<and> (3, 21) \<in> set [(3::int, 21::int)]
   \<and> total opening_24_21 WHITE = 15 \<and> total opening_24_21 BLACK = 15"
proof -
  have m: "(3, 21) \<in> set [(3::int, 21::int)]" by simp
  from apply_single_move_conserves [OF standard_board_inv standard_board_total
      standard_board_total legal_opening_24 m]
  show ?thesis
    by (simp add: apply_opening_24_21 standard_board_inv standard_board_total legal_opening_24)
qed

section \<open>Point exclusivity\<close>

text \<open>
  C4. Every board reachable from the standard setup by legal single moves
  satisfies at every pocket: checkers is 0 if and only if the owner is none
  (and the count is never negative); a pocket has a single owner field, so it
  never holds checkers of two owners. \<^verbatim>\<open>Point.add\<close> and \<^verbatim>\<open>Point.remove\<close>,
  called with a positive number of checkers, each preserve the per-point
  invariant.
\<close>

theorem point_invariant_reachable:
  "(reachable b \<longrightarrow>
      (\<forall>pt \<in> set (points b). (checkers pt = 0 \<longleftrightarrow> owner pt = None) \<and> checkers pt \<ge> 0))
   \<and> (point_inv pt \<and> n \<ge> 1 \<and> Point_add pt ow n = Inr pt' \<longrightarrow> point_inv pt')
   \<and> (point_inv pt \<and> n \<ge> 1 \<and> Point_remove pt n = Inr pt' \<longrightarrow> point_inv pt')"
proof -
  have "\<forall>pt \<in> set (points b). (checkers pt = 0 \<longleftrightarrow> owner pt = None) \<and> checkers pt \<ge> 0"
    if "reachable b"
    using reachable_inv [OF that] by (simp add: board_inv_def list_all_iff point_inv_def)
  moreover have "point_inv pt'" if "point_inv pt" "n \<ge> 1" "Point_add pt ow n = Inr pt'"
    using that by (auto simp: point_inv_def Point_add_def split: if_splits)
  moreover have "point_inv pt'" if "point_inv pt" "n \<ge> 1" "Point_remove pt n = Inr pt'"
    using that by (auto simp: point_inv_def Point_remove_def Let_def split: if_splits)
  ultimately show ?thesis by blast
qed

theorem point_invariant_reachable_witness:
  "reachable opening_24_21
   \<and> list_all (\<lambda>pt. (checkers pt = 0 \<longleftrightarrow> owner pt = None) \<and> checkers pt \<ge> 0)
         (points opening_24_21)
   \<and> point_inv (mk 2 WHITE) \<and> (1::int) \<ge> 1
   \<and> Point_add (mk 2 WHITE) WHITE 1 = Inr (mk 3 WHITE) \<and> point_inv (mk 3 WHITE)
   \<and> Point_remove (mk 2 WHITE) 1 = Inr (mk 1 WHITE) \<and> point_inv (mk 1 WHITE)"
proof -
  have r: "reachable opening_24_21"
    by (rule reachable.reach_move [OF reachable.reach_setup [OF standard_setup_board]
          legal_opening_24 _ apply_opening_24_21]) simp
  have a: "Point_add (mk 2 WHITE) WHITE 1 = Inr (mk 3 WHITE)"
    by (simp add: Point_add_def mk_def)
  have d: "Point_remove (mk 2 WHITE) 1 = Inr (mk 1 WHITE)"
    by (simp add: Point_remove_def mk_def)
  have i: "point_inv (mk 2 WHITE)" by (simp add: point_inv_def mk_def)
  from point_invariant_reachable [of opening_24_21 "mk 2 WHITE" 1 WHITE "mk 3 WHITE"]
       point_invariant_reachable [of opening_24_21 "mk 2 WHITE" 1 WHITE "mk 1 WHITE"]
       r a d i
  show ?thesis by (simp add: list_all_iff)
qed

section \<open>Win condition\<close>

text \<open>
  C7. In every reachable engine state \<^verbatim>\<open>has_won(p)\<close> is true if and only if
  the off-tray slot of \<open>p\<close>, slot 25 for WHITE and slot 27 for BLACK, holds
  exactly 15 checkers; and a legal single move never lowers the count of
  either off-tray slot, the same equivalence holding on the board after it.
\<close>

theorem has_won_iff_all_off:
  assumes "reachable (board en)"
  shows "has_won en WHITE = Inr (checkers (points (board en) ! 25) = 15)
         \<and> has_won en BLACK = Inr (checkers (points (board en) ! 27) = 15)
         \<and> (\<forall>q s ds ts d e r b'.
               legal_single_targets (board en) q s ds = Inr ts \<and> (d, e) \<in> set ts
               \<and> apply_single_move (board en) q s e = (r, b')
               \<longrightarrow> checkers (points (board en) ! 25) \<le> checkers (points b' ! 25)
                   \<and> checkers (points (board en) ! 27) \<le> checkers (points b' ! 27)
                   \<and> has_won (en\<lparr>board := b'\<rparr>) WHITE = Inr (checkers (points b' ! 25) = 15)
                   \<and> has_won (en\<lparr>board := b'\<rparr>) BLACK = Inr (checkers (points b' ! 27) = 15))"
proof -
  from reachable_inv [OF assms]
  have inv: "board_inv (board en)" and t: "total (board en) WHITE = 15" "total (board en) BLACK = 15"
    by simp_all
  have w: "has_won en WHITE = Inr (checkers (points (board en) ! 25) = 15)"
    using has_won_slot [OF inv t(1)] by (simp add: off_index_def)
  have k: "has_won en BLACK = Inr (checkers (points (board en) ! 27) = 15)"
    using has_won_slot [OF inv t(2)] by (simp add: off_index_def)
  have mono: "checkers (points (board en) ! 25) \<le> checkers (points b' ! 25)
                   \<and> checkers (points (board en) ! 27) \<le> checkers (points b' ! 27)
                   \<and> has_won (en\<lparr>board := b'\<rparr>) WHITE = Inr (checkers (points b' ! 25) = 15)
                   \<and> has_won (en\<lparr>board := b'\<rparr>) BLACK = Inr (checkers (points b' ! 27) = 15)"
    if m: "legal_single_targets (board en) q s ds = Inr ts" "(d, e) \<in> set ts"
       "apply_single_move (board en) q s e = (r, b')" for q s ds ts d e r b'
  proof -
    from apply_legal_move [OF inv m]
    have inv': "board_inv b'" and t': "total b' WHITE = 15" "total b' BLACK = 15"
      and ge: "\<forall>p. checkers (points (board en) ! nat (off_index p))
                  \<le> checkers (points b' ! nat (off_index p))"
      using t by simp_all
    from ge [rule_format, of WHITE] ge [rule_format, of BLACK]
    have "checkers (points (board en) ! 25) \<le> checkers (points b' ! 25)"
      "checkers (points (board en) ! 27) \<le> checkers (points b' ! 27)"
      by (simp_all add: off_index_def)
    moreover have "has_won (en\<lparr>board := b'\<rparr>) WHITE = Inr (checkers (points b' ! 25) = 15)"
      using has_won_slot [of "en\<lparr>board := b'\<rparr>" WHITE] inv' t'(1) by (simp add: off_index_def)
    moreover have "has_won (en\<lparr>board := b'\<rparr>) BLACK = Inr (checkers (points b' ! 27) = 15)"
      using has_won_slot [of "en\<lparr>board := b'\<rparr>" BLACK] inv' t'(2) by (simp add: off_index_def)
    ultimately show ?thesis by simp
  qed
  show ?thesis using w k mono by blast
qed

theorem has_won_iff_all_off_witness:
  "reachable (board \<lparr>board = almost_won, turn = WHITE, dice = [6]\<rparr>)
   \<and> checkers (points almost_won ! 25) = 14
   \<and> has_won \<lparr>board = almost_won, turn = WHITE, dice = [6]\<rparr> WHITE = Inr False
   \<and> legal_single_targets almost_won WHITE 6 [6] = Inr [(6, 25)]
   \<and> apply_single_move almost_won WHITE 6 25 = (None, won_position)
   \<and> checkers (points won_position ! 25) = 15
   \<and> has_won \<lparr>board = won_position, turn = WHITE, dice = [6]\<rparr> WHITE = Inr True
   \<and> has_won \<lparr>board = won_position, turn = WHITE, dice = [6]\<rparr> BLACK = Inr False"
proof -
  let ?en = "\<lparr>board = almost_won, turn = WHITE, dice = [6]\<rparr>"
  have r: "reachable (board ?en)" using reachable_almost_won by simp
  have c: "checkers (points almost_won ! 25) = 14"
    by (simp add: almost_won_def mk_def)
  have c': "checkers (points won_position ! 25) = 15" "checkers (points won_position ! 27) = 0"
    by (simp_all add: won_position_def mk_def Point0_def)
  note th = has_won_iff_all_off [OF r]
  from th have w: "has_won ?en WHITE = Inr False" using c by simp
  from th have "legal_single_targets (board ?en) WHITE 6 [6] = Inr [(6, 25)]
        \<and> (6, 25) \<in> set [(6::int, 25::int)]
        \<and> apply_single_move (board ?en) WHITE 6 25 = (None, won_position)
      \<longrightarrow> has_won (?en\<lparr>board := won_position\<rparr>) WHITE = Inr (checkers (points won_position ! 25) = 15)
        \<and> has_won (?en\<lparr>board := won_position\<rparr>) BLACK = Inr (checkers (points won_position ! 27) = 15)"
    by blast
  then have w': "has_won \<lparr>board = won_position, turn = WHITE, dice = [6]\<rparr> WHITE = Inr True"
    "has_won \<lparr>board = won_position, turn = WHITE, dice = [6]\<rparr> BLACK = Inr False"
    using c' by (simp_all add: legal_last_off apply_last_off)
  show ?thesis using r c c' w w' legal_last_off apply_last_off by simp
qed

section \<open>Maximal use of the dice\<close>

text \<open>
  C1, as stated: if some returned route consumes all rolled dice, no returned
  route leaves a die unused. This fails: on \<open>bar_position\<close>, a board of the
  data model with 15 checkers a side, WHITE to play 3 and 1, the generator
  returns both a route that plays the two dice and a route that plays only
  the 3.
\<close>

theorem maximal_usage_counterexample:
  "board_inv bar_position \<and> total bar_position WHITE = 15 \<and> total bar_position BLACK = 15
   \<and> generate_all_routes bar_position WHITE [3, 1] = Inr [route_22, route_24_7]
   \<and> length (moves route_24_7) = length [3::int, 1]
   \<and> length (moves route_22) < length [3::int, 1]"
proof -
  have "board_inv bar_position"
    by (simp add: board_inv_def bar_position_def slot_owner_ok_def point_inv_def mk_def
        Point0_def bar_index_def off_index_def)
  moreover have "total bar_position WHITE = 15" "total bar_position BLACK = 15"
    by (simp_all add: total_def contrib_def bar_position_def mk_def Point0_def)
  moreover have "length (moves route_24_7) = length [3::int, 1]"
    "length (moves route_22) < length [3::int, 1]"
    by (simp_all add: route_22_def route_24_7_def)
  ultimately show ?thesis using routes_bar_position by simp
qed

text \<open>
  C1, amended: every returned route is a playable sequence of legal single
  moves using each die at most as often as it was rolled, and a returned route
  leaves a die unused only when, on the board that this route itself reaches,
  no pocket holding a checker has a legal single move for any remaining die.
  Routes of another move order that consume all dice may be returned beside
  it.
\<close>

theorem short_routes_are_stuck:
  assumes "generate_all_routes b p ds = Inr rs" and "r \<in> set rs"
  shows "\<exists>b' rem'. play b p ds (moves r) = Some (b', rem')
           \<and> length (moves r) + length rem' = length ds
           \<and> (length (moves r) < length ds \<longrightarrow> stuck b' p rem')"
proof -
  from assms(1) obtain routes where bt: "backtrack p b ds [] = Inr routes"
    and rs: "rs = uniq_routes routes"
    by (auto simp: generate_all_routes_def split: sum.splits)
  from assms(2) rs set_uniq_routes have "r \<in> set routes" by blast
  with backtrack_finished(1) [of p b ds "[]"] bt have "finished b p ds [] r" by blast
  then obtain ms b' rem' where f: "moves r = ms" "play b p ds ms = Some (b', rem')"
    "length ms + length rem' = length ds" "rem' = [] \<or> no_move b' p rem'"
    by (auto simp: finished_def)
  then show ?thesis by (auto intro: no_move_stuck)
qed

theorem short_routes_are_stuck_witness:
  "generate_all_routes bar_position WHITE [3, 1] = Inr [route_22, route_24_7]
   \<and> route_22 \<in> set [route_22, route_24_7]
   \<and> play bar_position WHITE [3, 1] (moves route_22) = Some (bar_entered_22, [1])
   \<and> length (moves route_22) < length [3::int, 1]
   \<and> stuck bar_entered_22 WHITE [1]
   \<and> legal_single_targets bar_entered_22 WHITE 22 [1] = Inr []
   \<and> legal_single_targets bar_entered_22 WHITE 10 [1] = Inr []"
proof -
  have m: "route_22 \<in> set [route_22, route_24_7]" by simp
  have l: "length (moves route_22) < length [3::int, 1]" by (simp add: route_22_def)
  from short_routes_are_stuck [OF routes_bar_position m] l
  have st: "stuck bar_entered_22 WHITE [1]" by (auto simp: play_route_22)
  have p22: "point_at bar_entered_22 22 = Inr (mk 1 WHITE)"
    and p10: "point_at bar_entered_22 10 = Inr (mk 1 WHITE)"
    by (simp_all add: point_at_def py_index_def bar_entered_22_def)
  have c: "checkers (mk 1 WHITE) > 0" by (simp add: mk_def)
  from st p22 p10 c have "legal_single_targets bar_entered_22 WHITE 22 [1] = Inr []"
    "legal_single_targets bar_entered_22 WHITE 10 [1] = Inr []"
    unfolding stuck_def by auto
  then show ?thesis using st m l routes_bar_position play_route_22 by simp
qed

section \<open>Queries leave their board unchanged\<close>

text \<open>
  C10. \<^verbatim>\<open>legal_single_targets\<close> and \<^verbatim>\<open>generate_all_routes\<close> leave the board
  they are given unchanged: after the call the store holds every board it
  held before, the given one included, with the same contents; the moves of
  route generation are applied to newly allocated clones only. Both calls
  return what the value model returns for the board at the given address.
\<close>

theorem queries_leave_board_unchanged:
  assumes "a < length h"
  shows "snd (legal_single_targets_at h a p s ds) = h
         \<and> fst (legal_single_targets_at h a p s ds) = legal_single_targets (h ! a) p s ds
         \<and> extends h (snd (generate_all_routes_at h a p ds))
         \<and> snd (generate_all_routes_at h a p ds) ! a = h ! a
         \<and> fst (generate_all_routes_at h a p ds) = generate_all_routes (h ! a) p ds"
proof -
  obtain res h' where bt: "backtrack_at p h a ds [] = (res, h')"
    by (cases "backtrack_at p h a ds []")
  from backtrack_at_frame(1) [of a h p ds "[]"] assms bt
  have e: "extends h h'" and f: "backtrack p (h ! a) ds [] = res" by simp_all
  have g: "generate_all_routes_at h a p ds = (map_sum id uniq_routes res, h')"
    using bt by (cases res) (simp_all add: generate_all_routes_at_def)
  have "fst (generate_all_routes_at h a p ds) = generate_all_routes (h ! a) p ds"
    using g f by (cases res) (simp_all add: generate_all_routes_def)
  moreover have "snd (generate_all_routes_at h a p ds) ! a = h ! a"
    using g e assms by (simp add: extends_nth)
  ultimately show ?thesis using g e by (simp add: legal_single_targets_at_def)
qed

theorem queries_leave_board_unchanged_witness:
  "(0::nat) < length [bar_position]
   \<and> snd (legal_single_targets_at [bar_position] 0 WHITE 0 [3, 1]) = [bar_position]
   \<and> snd (generate_all_routes_at [bar_position] 0 WHITE [3, 1]) ! 0 = bar_position
   \<and> fst (generate_all_routes_at [bar_position] 0 WHITE [3, 1]) = Inr [route_22, route_24_7]"
proof -
  have l: "(0::nat) < length [bar_position]" by simp
  from queries_leave_board_unchanged [OF l, of WHITE 0 "[3, 1]"] show ?thesis
    by (simp add: routes_bar_position)
qed

declare minimax.simps [simp del] routes_loop.simps [simp del] replies_loop.simps [simp del]

section \<open>Depth-0 search\<close>

text \<open>
  C6. For every engine state of the data model, the minimax search with
  \<open>depth = 0\<close> (and any fuel but none) returns exactly the evaluator's score
  of the root board for the side to move, with an empty principal variation;
  it draws no random number and counts one node and one leaf evaluation.
\<close>

theorem minimax_depth_zero:
  assumes "board_inv (board en)"
  shows "minimax rs eval_fn (Suc fuel) en 0 alpha beta dbg g =
           Some (Inr ((Finite (eval_fn (board en) (turn en)), []),
                      (g, (case dbg of None \<Rightarrow> \<lparr>nodes = 1, leaf_evals = 1, best_line = []\<rparr>
                           | Some d \<Rightarrow> d\<lparr>nodes := nodes d + 1, leaf_evals := leaf_evals d + 1\<rparr>))))"
proof -
  from generate_all_routes_total [OF assms]
  obtain routes where "generate_routes en = Inr routes"
    by (auto simp: generate_routes_def)
  then show ?thesis
    by (cases dbg) (simp_all add: minimax.simps terminal_eval_def)
qed

theorem minimax_depth_zero_witness:
  "board_inv (board \<lparr>board = standard_board, turn = WHITE, dice = [3, 1]\<rparr>)
   \<and> minimax coin_src count_eval (Suc 0) \<lparr>board = standard_board, turn = WHITE, dice = [3, 1]\<rparr>
        0 MInf PInf None 0
      = Some (Inr ((Finite 15, []), (0, \<lparr>nodes = 1, leaf_evals = 1, best_line = []\<rparr>)))"
proof -
  let ?en = "\<lparr>board = standard_board, turn = WHITE, dice = [3, 1]\<rparr>"
  have i: "board_inv (board ?en)" by (simp add: standard_board_inv)
  from minimax_depth_zero [OF i, of coin_src count_eval 0 MInf PInf None 0]
  show ?thesis using i by (simp add: count_eval_def standard_board_total)
qed

section \<open>Fuzzy score bounds\<close>




end
